theory Spec2Isabelle
  imports Main
begin

section \<open>The node model of package html, as package htree uses it\<close>

text \<open>
  Package htree works on trees of \<^verbatim>\<open>*html.Node\<close> (golang.org/x/net/html). A node has a
  type, an atom, a data string, a namespace, a list of attributes, and five pointers to
  other nodes. The node types and the atoms are constants of the packages html and
  atom. The atoms listed are the ones htree names; every other value of \<^verbatim>\<open>atom.Atom\<close> is
  \<open>atom_Other\<close>. A value of \<^verbatim>\<open>html.NodeType\<close> that is none of the seven exported constants
  is \<open>OtherNodeType\<close>.
\<close>

datatype NodeType =
  ErrorNode | TextNode | DocumentNode | ElementNode | CommentNode | DoctypeNode | RawNode
  | OtherNodeType nat

datatype atom =
    atom_Address | atom_Article | atom_Aside | atom_Blockquote | atom_Body
  | atom_Details | atom_Dialog | atom_Dd | atom_Div | atom_Dl | atom_Dt
  | atom_Fieldset | atom_Figcaption | atom_Figure | atom_Footer | atom_Form
  | atom_H1 | atom_H2 | atom_H3 | atom_H4 | atom_H5 | atom_H6
  | atom_Head | atom_Header | atom_Hr | atom_Html
  | atom_Li | atom_Main | atom_Meta | atom_Nav | atom_Ol | atom_P | atom_Pre
  | atom_Section | atom_Summary | atom_Table | atom_Ul
  | atom_Iframe | atom_Noembed | atom_Noframes | atom_Noscript | atom_Plaintext
  | atom_Script | atom_Style | atom_Xmp
  | atom_Area | atom_Base | atom_Br | atom_Col | atom_Embed
  | atom_Img | atom_Input | atom_Keygen | atom_Link
  | atom_Param | atom_Source | atom_Track | atom_Wbr
  | atom_Other nat

text \<open>\<^verbatim>\<open>html.Attribute\<close>; its namespace field is called \<open>AttrNamespace\<close> here.\<close>

record Attribute =
  AttrNamespace :: string
  Key :: string
  Val :: string

text \<open>
  A pointer \<^verbatim>\<open>*html.Node\<close> is \<open>None\<close> (nil) or the address of a node. The store is the
  list of all nodes allocated so far: the node at address \<open>a\<close> is \<open>h ! a\<close>, and allocating
  a node appends it, so the fresh address is \<open>length h\<close>.
\<close>

type_synonym ptr = "nat option"

record Node =
  Parent :: ptr
  FirstChild :: ptr
  LastChild :: ptr
  PrevSibling :: ptr
  NextSibling :: ptr
  Type :: NodeType
  DataAtom :: atom
  Data :: string
  Namespace :: string
  Attr :: "Attribute list"

type_synonym heap = "Node list"

definition deref :: "heap \<Rightarrow> nat \<Rightarrow> Node option" where
  "deref h a = (if a < length h then Some (h ! a) else None)"

text \<open>
  Go errors and panics. Every caller in this package hands an error straight up to its
  own caller, which is also what a panic does, so both travel in the error position.
\<close>

datatype error = Error string | Panic string

section \<open>htree.go\<close>

text \<open>
  The functions recurse over a pointer structure, which need not be a finite tree. Each
  call and each round of a \<^verbatim>\<open>for child := node.FirstChild; child != nil; child =
  child.NextSibling\<close> loop uses one unit of the first argument, and \<open>None\<close> is the
  outcome of a run that did not return within it (or that followed an address outside
  the store, which no Go pointer does). A predicate \<^verbatim>\<open>func(*html.Node) bool\<close> is a function
  of the node's address: it is pure, so its answer on a node is fixed.
\<close>

subsection \<open>Find\<close>

fun Find :: "nat \<Rightarrow> heap \<Rightarrow> nat \<Rightarrow> (nat \<Rightarrow> bool) \<Rightarrow> ptr option"
  and Find_loop :: "nat \<Rightarrow> heap \<Rightarrow> ptr \<Rightarrow> (nat \<Rightarrow> bool) \<Rightarrow> ptr option" where
  "Find 0 h node pred = None"
| "Find (Suc k) h node pred =
     (case deref h node of
        None \<Rightarrow> None
      | Some n \<Rightarrow>
          if pred node then Some (Some node)
          else if Type n = TextNode then Some None
          else Find_loop k h (FirstChild n) pred)"
| "Find_loop 0 h child pred = None"
| "Find_loop (Suc k) h None pred = Some None"
| "Find_loop (Suc k) h (Some child) pred =
     (case Find k h child pred of
        None \<Rightarrow> None
      | Some (Some found) \<Rightarrow> Some (Some found)
      | Some None \<Rightarrow>
          (case deref h child of
             None \<Rightarrow> None
           | Some c \<Rightarrow> Find_loop k h (NextSibling c) pred))"

subsection \<open>Walk\<close>

text \<open>
  An iterator \<^verbatim>\<open>iter.Seq[*html.Node]\<close> is a function of the consumer's \<^verbatim>\<open>yield\<close>. The
  consumer has a state of its own; \<open>yield n s\<close> is its answer (go on, or stop) and its
  new state.
\<close>

type_synonym 's yield = "nat \<Rightarrow> 's \<Rightarrow> bool \<times> 's"

fun walk :: "nat \<Rightarrow> heap \<Rightarrow> nat \<Rightarrow> 's yield \<Rightarrow> 's \<Rightarrow> (bool \<times> 's) option"
  and walk_loop :: "nat \<Rightarrow> heap \<Rightarrow> ptr \<Rightarrow> 's yield \<Rightarrow> 's \<Rightarrow> (bool \<times> 's) option" where
  "walk 0 h node yield s = None"
| "walk (Suc k) h node yield s =
     (case deref h node of
        None \<Rightarrow> None
      | Some n \<Rightarrow>
          if Type n = TextNode then Some (True, s)
          else let (continue, s') = yield node s in
            if \<not> continue then Some (False, s')
            else walk_loop k h (FirstChild n) yield s')"
| "walk_loop 0 h child yield s = None"
| "walk_loop (Suc k) h None yield s = Some (True, s)"
| "walk_loop (Suc k) h (Some child) yield s =
     (case walk k h child yield s of
        None \<Rightarrow> None
      | Some (continue, s') \<Rightarrow>
          if \<not> continue then Some (False, s')
          else (case deref h child of
             None \<Rightarrow> None
           | Some c \<Rightarrow> walk_loop k h (NextSibling c) yield s'))"

definition Walk :: "nat \<Rightarrow> heap \<Rightarrow> nat \<Rightarrow> 's yield \<Rightarrow> 's \<Rightarrow> 's option" where
  "Walk k h node = (\<lambda>yield s. map_option snd (walk k h node yield s))"

subsection \<open>FindAll and FindAllChildren\<close>

fun findAll :: "nat \<Rightarrow> heap \<Rightarrow> nat \<Rightarrow> (nat \<Rightarrow> bool) \<Rightarrow> 's yield \<Rightarrow> 's \<Rightarrow> (bool \<times> 's) option"
  and findAllChildren :: "nat \<Rightarrow> heap \<Rightarrow> nat \<Rightarrow> (nat \<Rightarrow> bool) \<Rightarrow> 's yield \<Rightarrow> 's \<Rightarrow> (bool \<times> 's) option"
  and findAllChildren_loop :: "nat \<Rightarrow> heap \<Rightarrow> ptr \<Rightarrow> (nat \<Rightarrow> bool) \<Rightarrow> 's yield \<Rightarrow> 's \<Rightarrow> (bool \<times> 's) option"
  where
  "findAll 0 h node pred yield s = None"
| "findAll (Suc k) h node pred yield s =
     (if pred node then
        let (continue, s') = yield node s in
          if \<not> continue then Some (False, s')
          else findAllChildren k h node pred yield s'
      else findAllChildren k h node pred yield s)"
| "findAllChildren 0 h node pred yield s = None"
| "findAllChildren (Suc k) h node pred yield s =
     (case deref h node of
        None \<Rightarrow> None
      | Some n \<Rightarrow>
          if Type n = TextNode then Some (True, s)
          else findAllChildren_loop k h (FirstChild n) pred yield s)"
| "findAllChildren_loop 0 h child pred yield s = None"
| "findAllChildren_loop (Suc k) h None pred yield s = Some (True, s)"
| "findAllChildren_loop (Suc k) h (Some child) pred yield s =
     (case findAll k h child pred yield s of
        None \<Rightarrow> None
      | Some (continue, s') \<Rightarrow>
          if \<not> continue then Some (False, s')
          else (case deref h child of
             None \<Rightarrow> None
           | Some c \<Rightarrow> findAllChildren_loop k h (NextSibling c) pred yield s'))"

definition FindAll :: "nat \<Rightarrow> heap \<Rightarrow> nat \<Rightarrow> (nat \<Rightarrow> bool) \<Rightarrow> 's yield \<Rightarrow> 's \<Rightarrow> 's option" where
  "FindAll k h node pred = (\<lambda>yield s. map_option snd (findAll k h node pred yield s))"

definition FindAllChildren :: "nat \<Rightarrow> heap \<Rightarrow> nat \<Rightarrow> (nat \<Rightarrow> bool) \<Rightarrow> 's yield \<Rightarrow> 's \<Rightarrow> 's option" where
  "FindAllChildren k h node pred =
     (\<lambda>yield s. map_option snd (findAllChildren k h node pred yield s))"

text \<open>
  The consumer \<^verbatim>\<open>for n := range seq { out = append(out, n) }\<close>, which never stops early:
  \<open>collect_seq seq\<close> is the sequence of nodes that \<open>seq\<close> yields.
\<close>

definition append_yield :: "(nat list) yield" where
  "append_yield n acc = (True, acc @ [n])"

definition collect_seq :: "((nat list) yield \<Rightarrow> nat list \<Rightarrow> nat list option) \<Rightarrow> nat list option" where
  "collect_seq seq = seq append_yield []"

subsection \<open>WriteText and Text\<close>

text \<open>
  \<^verbatim>\<open>io.Writer\<close>: \<open>Write w p\<close> is the writer after the call and the error of the call.
  \<^verbatim>\<open>html.UnescapeString\<close> belongs to package html and is a parameter.
\<close>

type_synonym 'w Writer = "'w \<Rightarrow> string \<Rightarrow> 'w \<times> error option"

fun WriteText :: "nat \<Rightarrow> 'w Writer \<Rightarrow> (string \<Rightarrow> string) \<Rightarrow> heap \<Rightarrow> 'w \<Rightarrow> nat \<Rightarrow> ('w \<times> error option) option"
  and WriteText_loop :: "nat \<Rightarrow> 'w Writer \<Rightarrow> (string \<Rightarrow> string) \<Rightarrow> heap \<Rightarrow> 'w \<Rightarrow> ptr \<Rightarrow> ('w \<times> error option) option"
  where
  "WriteText 0 Write UnescapeString h w node = None"
| "WriteText (Suc k) Write UnescapeString h w node =
     (case deref h node of
        None \<Rightarrow> None
      | Some n \<Rightarrow>
          (case Type n of
             TextNode \<Rightarrow>
               (case Write w (UnescapeString (Data n)) of
                  (w', Some err) \<Rightarrow> Some (w', Some err)
                | (w', None) \<Rightarrow> WriteText_loop k Write UnescapeString h w' (FirstChild n))
           | ElementNode \<Rightarrow>
               if DataAtom n = atom_Br then Some (Write w [CHR 0x0A])
               else if DataAtom n = atom_Script \<or> DataAtom n = atom_Style then Some (w, None)
               else WriteText_loop k Write UnescapeString h w (FirstChild n)
           | _ \<Rightarrow> WriteText_loop k Write UnescapeString h w (FirstChild n)))"
| "WriteText_loop 0 Write UnescapeString h w child = None"
| "WriteText_loop (Suc k) Write UnescapeString h w None = Some (w, None)"
| "WriteText_loop (Suc k) Write UnescapeString h w (Some child) =
     (case WriteText k Write UnescapeString h w child of
        None \<Rightarrow> None
      | Some (w', Some err) \<Rightarrow> Some (w', Some err)
      | Some (w', None) \<Rightarrow>
          (case deref h child of
             None \<Rightarrow> None
           | Some c \<Rightarrow> WriteText_loop k Write UnescapeString h w' (NextSibling c)))"

text \<open>\<^verbatim>\<open>bytes.Buffer\<close>: its \<^verbatim>\<open>Write\<close> appends and never fails.\<close>

definition Buffer_Write :: "string Writer" where
  "Buffer_Write buf p = (buf @ p, None)"

definition Text :: "nat \<Rightarrow> (string \<Rightarrow> string) \<Rightarrow> heap \<Rightarrow> nat \<Rightarrow> (string \<times> error option) option" where
  "Text k UnescapeString h node = WriteText k Buffer_Write UnescapeString h [] node"

subsection \<open>Prune\<close>

text \<open>
  The second loop of \<^verbatim>\<open>Prune\<close>, \<^verbatim>\<open>for i, child := range children\<close>: round \<open>i\<close> writes
  the two sibling pointers of \<open>children[i]\<close>.
\<close>

definition relink_step :: "nat list \<Rightarrow> heap \<Rightarrow> nat \<Rightarrow> heap" where
  "relink_step children h i =
     (let child = children ! i;
          h1 = h[child := (h ! child)\<lparr>PrevSibling :=
                  (if i = 0 then None else Some (children ! (i - 1)))\<rparr>];
          h2 = h1[child := (h1 ! child)\<lparr>NextSibling :=
                  (if i = length children - 1 then None else Some (children ! (i + 1)))\<rparr>]
      in h2)"

definition relink :: "nat list \<Rightarrow> heap \<Rightarrow> heap" where
  "relink children h = foldl (relink_step children) h [0..<length children]"

text \<open>
  \<open>Prune\<close> returns the store after the call and the pointer it returns. \<^verbatim>\<open>result :=
  *node\<close> copies the node, and \<^verbatim>\<open>&result\<close> is its fresh address.
\<close>

fun Prune :: "nat \<Rightarrow> heap \<Rightarrow> nat \<Rightarrow> (nat \<Rightarrow> bool) \<Rightarrow> (heap \<times> ptr) option"
  and Prune_loop :: "nat \<Rightarrow> heap \<Rightarrow> ptr \<Rightarrow> (nat \<Rightarrow> bool) \<Rightarrow> nat list \<Rightarrow> (heap \<times> nat list) option"
  where
  "Prune 0 h node pred = None"
| "Prune (Suc k) h node pred =
     (case deref h node of
        None \<Rightarrow> None
      | Some _ \<Rightarrow>
          if pred node then Some (h, None)
          else
            (case Prune_loop k h (FirstChild (h ! node)) pred [] of
               None \<Rightarrow> None
             | Some (h1, children) \<Rightarrow>
                 let h2 = relink children h1;
                     result = h2 ! node;
                     result' =
                       (if length children > 0
                        then result\<lparr>FirstChild := Some (children ! 0),
                                    LastChild := Some (children ! (length children - 1))\<rparr>
                        else result\<lparr>FirstChild := None, LastChild := None\<rparr>)
                 in Some (h2 @ [result'], Some (length h2))))"
| "Prune_loop 0 h child pred children = None"
| "Prune_loop (Suc k) h None pred children = Some (h, children)"
| "Prune_loop (Suc k) h (Some child) pred children =
     (case Prune k h child pred of
        None \<Rightarrow> None
      | Some (h1, pruned) \<Rightarrow>
          (case deref h1 child of
             None \<Rightarrow> None
           | Some c \<Rightarrow>
               Prune_loop k h1 (NextSibling c) pred
                 (case pruned of None \<Rightarrow> children | Some p \<Rightarrow> children @ [p])))"

section \<open>indent.go\<close>

subsection \<open>The three classification sets\<close>

definition blockElements :: "atom set" where
  "blockElements = {
     atom_Address, atom_Article, atom_Aside, atom_Blockquote, atom_Body,
     atom_Details, atom_Dialog, atom_Dd, atom_Div, atom_Dl, atom_Dt,
     atom_Fieldset, atom_Figcaption, atom_Figure, atom_Footer, atom_Form,
     atom_H1, atom_H2, atom_H3, atom_H4, atom_H5, atom_H6, atom_Head, atom_Header,
     atom_Hr, atom_Html,
     atom_Li, atom_Main, atom_Meta, atom_Nav, atom_Ol, atom_P, atom_Pre,
     atom_Section, atom_Summary, atom_Table, atom_Ul}"

definition literalChildElements :: "atom set" where
  "literalChildElements = {
     atom_Iframe, atom_Noembed, atom_Noframes, atom_Noscript, atom_Plaintext,
     atom_Script, atom_Style, atom_Xmp}"

definition voidElements :: "atom set" where
  "voidElements = {
     atom_Area, atom_Base, atom_Br, atom_Col, atom_Embed, atom_Hr,
     atom_Img, atom_Input, atom_Keygen, atom_Link, atom_Meta,
     atom_Param, atom_Source, atom_Track, atom_Wbr}"

subsection \<open>The caller's writer and the buffered writer\<close>

text \<open>
  The writer \<open>w\<close> that the caller passes to \<open>Indent\<close> is an \<^verbatim>\<open>io.Writer\<close>. Its state is
  the bytes it has received so far, and an \<open>io_Writer\<close> is its behaviour: for the bytes
  received so far and the bytes \<open>p\<close> of a call \<^verbatim>\<open>Write(p)\<close>, the number \<open>n\<close> of bytes of \<open>p\<close>
  it takes and the error it returns. An \<^verbatim>\<open>io.Writer\<close> returns \<open>0 \<le> n \<le> len(p)\<close>.
\<close>

type_synonym io_Writer = "string \<Rightarrow> string \<Rightarrow> nat \<times> error option"

definition io_Write :: "io_Writer \<Rightarrow> string \<Rightarrow> string \<Rightarrow> string \<times> nat \<times> error option" where
  "io_Write W received p =
     (let (n, err) = W received p;
          n' = min n (length p)
      in (received @ take n' p, n', err))"

text \<open>
  \<^verbatim>\<open>bufio.Writer\<close>, of the Go standard library, as \<open>indentHelper\<close> uses it: \<^verbatim>\<open>NewWriter\<close>,
  \<^verbatim>\<open>WriteByte\<close> and \<^verbatim>\<open>Flush\<close>, with the default buffer size of 4096 bytes. Field \<open>bufio_buf\<close> is
  \<^verbatim>\<open>b.buf[0:b.n]\<close>, the bytes accepted and not yet handed on; \<open>bufio_err\<close> is the sticky error
  \<^verbatim>\<open>b.err\<close>; \<open>bufio_wr\<close> is the state of the writer underneath, the bytes it has received. The
  caller's writer is taken not to be a \<^verbatim>\<open>*bufio.Writer\<close> itself (which \<^verbatim>\<open>NewWriter\<close> would
  return as it is).
\<close>

record bufio_Writer =
  bufio_err :: "error option"
  bufio_buf :: string
  bufio_wr :: string

definition defaultBufSize :: nat where
  "defaultBufSize = 4096"

definition ErrShortWrite :: error where
  "ErrShortWrite = Error ''short write''"

definition NewWriter :: "string \<Rightarrow> bufio_Writer" where
  "NewWriter w = \<lparr>bufio_err = None, bufio_buf = [], bufio_wr = w\<rparr>"

definition Flush :: "io_Writer \<Rightarrow> bufio_Writer \<Rightarrow> bufio_Writer \<times> error option" where
  "Flush W b =
     (case bufio_err b of
        Some e \<Rightarrow> (b, Some e)
      | None \<Rightarrow>
          if bufio_buf b = [] then (b, None)
          else
            (let (wr', n, err) = io_Write W (bufio_wr b) (bufio_buf b);
                 err' = (if n < length (bufio_buf b) \<and> err = None
                         then Some ErrShortWrite else err)
             in case err' of
                  Some e \<Rightarrow>
                    (b\<lparr>bufio_err := Some e, bufio_buf := drop n (bufio_buf b),
                       bufio_wr := wr'\<rparr>, Some e)
                | None \<Rightarrow> (b\<lparr>bufio_buf := [], bufio_wr := wr'\<rparr>, None)))"

definition WriteByte :: "io_Writer \<Rightarrow> bufio_Writer \<Rightarrow> char \<Rightarrow> bufio_Writer \<times> error option" where
  "WriteByte W b c =
     (case bufio_err b of
        Some e \<Rightarrow> (b, Some e)
      | None \<Rightarrow>
          if defaultBufSize \<le> length (bufio_buf b) then
            (case Flush W b of
               (b', Some e) \<Rightarrow> (b', bufio_err b')
             | (b', None) \<Rightarrow> (b'\<lparr>bufio_buf := bufio_buf b' @ [c]\<rparr>, None))
          else (b\<lparr>bufio_buf := bufio_buf b @ [c]\<rparr>, None))"

subsection \<open>bolwriter\<close>

text \<open>
  \<^verbatim>\<open>type bolwriter struct { w io.ByteWriter; bol bool }\<close>, where \<open>w\<close> is the buffered writer
  \<open>bw\<close> of \<open>indentHelper\<close> (field \<open>bolw_w\<close>). The first argument of the methods is the
  behaviour of the caller's writer underneath \<open>bw\<close>.
\<close>

record bolwriter =
  bolw_w :: bufio_Writer
  bol :: bool

text \<open>What a call does to the \<open>bolwriter\<close>: the writer after it and the error it returns.\<close>

type_synonym action = "bolwriter \<Rightarrow> (bolwriter \<times> error option) option"

fun bolwriter_Write :: "io_Writer \<Rightarrow> string \<Rightarrow> bolwriter \<Rightarrow> bolwriter \<times> error option" where
  "bolwriter_Write W [] w = (w, None)"
| "bolwriter_Write W (b # p) w =
     (case WriteByte W (bolw_w w) b of
        (bw, Some err) \<Rightarrow> (w\<lparr>bolw_w := bw\<rparr>, Some err)
      | (bw, None) \<Rightarrow> bolwriter_Write W p (w\<lparr>bolw_w := bw, bol := (b = CHR 0x0A)\<rparr>))"

definition ensureNewline :: "io_Writer \<Rightarrow> action" where
  "ensureNewline W w =
     (if bol w then Some (w, None)
      else (case WriteByte W (bolw_w w) (CHR 0x0A) of
              (bw, Some err) \<Rightarrow> Some (w\<lparr>bolw_w := bw\<rparr>, Some err)
            | (bw, None) \<Rightarrow> Some (w\<lparr>bolw_w := bw, bol := True\<rparr>, None)))"

text \<open>
  \<^verbatim>\<open>fmt.Fprint(w, s)\<close> and \<^verbatim>\<open>fmt.Fprintf(w, ...)\<close> format a string and hand it to \<open>w.Write\<close>.
\<close>

definition Fprint :: "io_Writer \<Rightarrow> string \<Rightarrow> action" where
  "Fprint W s w = Some (bolwriter_Write W s w)"

text \<open>
  \<^verbatim>\<open>html.Render(w, n)\<close> belongs to package html and is a parameter: \<open>Render h n\<close> is the
  text it renders node \<open>n\<close> as, which it hands to \<open>w.Write\<close>, or the error it fails with
  (what it wrote before failing is left out).
\<close>

definition Render_to :: "io_Writer \<Rightarrow> (heap \<Rightarrow> nat \<Rightarrow> error + string) \<Rightarrow> heap \<Rightarrow> nat \<Rightarrow> action" where
  "Render_to W Render h n w =
     (case Render h n of
        Inl err \<Rightarrow> Some (w, Some err)
      | Inr s \<Rightarrow> Some (bolwriter_Write W s w))"

text \<open>
  Statements in sequence, each \<^verbatim>\<open>if err != nil { return err }\<close>: the first error ends
  the sequence.
\<close>

fun do_all :: "action list \<Rightarrow> action" where
  "do_all [] w = Some (w, None)"
| "do_all (a # as) w =
     (case a w of
        None \<Rightarrow> None
      | Some (w', Some err) \<Rightarrow> Some (w', Some err)
      | Some (w', None) \<Rightarrow> do_all as w')"

definition skip :: action where
  "skip w = Some (w, None)"

definition return_err :: "error \<Rightarrow> action" where
  "return_err err w = Some (w, Some err)"

definition if_bol :: "action \<Rightarrow> action" where
  "if_bol a w = (if bol w then a w else Some (w, None))"

subsection \<open>indent\<close>

text \<open>The loop over \<open>n.Attr\<close>; \<^verbatim>\<open>html.EscapeString\<close> is a parameter.\<close>

fun write_attrs :: "io_Writer \<Rightarrow> (string \<Rightarrow> string) \<Rightarrow> Attribute list \<Rightarrow> action" where
  "write_attrs W EscapeString [] = skip"
| "write_attrs W EscapeString (a # as) =
     do_all [
       Fprint W ('' '' @ Key a),
       (if Val a \<noteq> [] then
          Fprint W (''='' @ [CHR 0x22] @ EscapeString (Val a) @ [CHR 0x22])
        else skip),
       write_attrs W EscapeString as]"

text \<open>
  \<^verbatim>\<open>strings.Repeat\<close> panics on a negative count, and when the length of the result
  overflows \<open>int\<close> (64 bits, as on the usual platforms). Memory is not modelled: a result
  whose length fits \<open>int\<close> is returned.
\<close>

definition maxInt :: int where
  "maxInt = 2 ^ 63 - 1"

definition Repeat :: "string \<Rightarrow> int \<Rightarrow> error + string" where
  "Repeat s count =
     (if count < 0 then Inl (Panic ''strings: negative Repeat count'')
      else if maxInt < int (length s) * count
        then Inl (Panic ''strings: Repeat output length overflow'')
      else Inr (concat (replicate (nat count) s)))"

text \<open>
  \<open>indent\<close>, with its two loops over \<^verbatim>\<open>n.ChildNodes()\<close>: the one of a document node and
  the one of an element node \<open>n\<close>. The message of the last error leaves the number of the
  node type out. The level is an \<open>int\<close>: where \<open>level + 1\<close> is computed, \<^verbatim>\<open>strings.Repeat\<close> has
  returned for \<open>level\<close>, so the sum does not overflow.
\<close>

function (sequential)
  indent :: "nat \<Rightarrow> io_Writer \<Rightarrow> (heap \<Rightarrow> nat \<Rightarrow> error + string) \<Rightarrow> (string \<Rightarrow> string)
      \<Rightarrow> heap \<Rightarrow> nat \<Rightarrow> int \<Rightarrow> action"
  and indent_document_children :: "nat \<Rightarrow> io_Writer \<Rightarrow> (heap \<Rightarrow> nat \<Rightarrow> error + string)
      \<Rightarrow> (string \<Rightarrow> string) \<Rightarrow> heap \<Rightarrow> ptr \<Rightarrow> int \<Rightarrow> action"
  and indent_element_children :: "nat \<Rightarrow> io_Writer \<Rightarrow> (heap \<Rightarrow> nat \<Rightarrow> error + string)
      \<Rightarrow> (string \<Rightarrow> string) \<Rightarrow> heap \<Rightarrow> nat \<Rightarrow> ptr \<Rightarrow> int \<Rightarrow> action"
  where
  "indent 0 W Render EscapeString h n level = (\<lambda>w. None)"
| "indent (Suc k) W Render EscapeString h n level =
     (case deref h n of
        None \<Rightarrow> (\<lambda>w. None)
      | Some nd \<Rightarrow>
     (case Repeat ''  '' level of
        Inl p \<Rightarrow> return_err p
      | Inr prefix \<Rightarrow>
     (case Type nd of
        ErrorNode \<Rightarrow> return_err (Error ''cannot render error node'')
      | TextNode \<Rightarrow>
          do_all [
            if_bol (Fprint W prefix),
            Render_to W Render h n]
      | DoctypeNode \<Rightarrow>
          do_all [
            Render_to W Render h n,
            ensureNewline W]
      | DocumentNode \<Rightarrow>
          indent_document_children k W Render EscapeString h (FirstChild nd) level
      | ElementNode \<Rightarrow>
          (let isBlock = (DataAtom nd \<in> blockElements) in
           do_all [
             (if isBlock then ensureNewline W else skip),
             if_bol (Fprint W prefix),
             Fprint W (''<'' @ Data nd),
             write_attrs W EscapeString (Attr nd),
             Fprint W ''>'',
             (if isBlock then Fprint W [CHR 0x0A] else skip),
             (if DataAtom nd \<in> voidElements then skip
              else do_all [
                indent_element_children k W Render EscapeString h n (FirstChild nd) level,
                (if isBlock
                 then do_all [ensureNewline W, Fprint W prefix]
                 else skip),
                if_bol (Fprint W prefix),
                Fprint W (''</'' @ Data nd @ ''>'')])])
      | CommentNode \<Rightarrow>
          do_all [
            if_bol (Fprint W prefix),
            Render_to W Render h n]
      | RawNode \<Rightarrow> Fprint W (Data nd)
      | OtherNodeType _ \<Rightarrow> return_err (Error ''unknown node type''))))"
| "indent_document_children 0 W Render EscapeString h child level = (\<lambda>w. None)"
| "indent_document_children (Suc k) W Render EscapeString h None level = skip"
| "indent_document_children (Suc k) W Render EscapeString h (Some child) level =
     (case deref h child of
        None \<Rightarrow> (\<lambda>w. None)
      | Some c \<Rightarrow>
          do_all [
            indent k W Render EscapeString h child level,
            indent_document_children k W Render EscapeString h (NextSibling c) level])"
| "indent_element_children 0 W Render EscapeString h n child level = (\<lambda>w. None)"
| "indent_element_children (Suc k) W Render EscapeString h n None level = skip"
| "indent_element_children (Suc k) W Render EscapeString h n (Some child) level =
     (case deref h child of
        None \<Rightarrow> (\<lambda>w. None)
      | Some c \<Rightarrow>
          do_all [
            (if DataAtom (h ! n) \<in> literalChildElements then
               (if Type c = TextNode then Fprint W (Data c)
                else Render_to W Render h child)
             else indent k W Render EscapeString h child (level + 1)),
            indent_element_children k W Render EscapeString h n (NextSibling c) level])"
  by pat_completeness auto
termination
  by (relation "measure (\<lambda>x. case x of
        Inl a \<Rightarrow> fst a | Inr (Inl b) \<Rightarrow> fst b | Inr (Inr c) \<Rightarrow> fst c)") auto

subsection \<open>Indent and Indentln\<close>

text \<open>
  \<open>indentHelper\<close>: argument \<open>w\<close> is what the caller's writer has received before the
  call. The result is what it has received when \<open>indentHelper\<close> has returned, and the
  error that \<open>indentHelper\<close> returns. \<^verbatim>\<open>defer bw.Flush()\<close> runs on every way out, after the
  returned error is fixed, and the error of \<^verbatim>\<open>Flush\<close> itself is dropped.
\<close>

definition deferred_Flush :: "io_Writer \<Rightarrow> bufio_Writer \<Rightarrow> error option
    \<Rightarrow> (string \<times> error option) option" where
  "deferred_Flush W bw err = Some (bufio_wr (fst (Flush W bw)), err)"

definition indentHelper :: "nat \<Rightarrow> io_Writer \<Rightarrow> (heap \<Rightarrow> nat \<Rightarrow> error + string)
    \<Rightarrow> (string \<Rightarrow> string) \<Rightarrow> heap \<Rightarrow> string \<Rightarrow> nat \<Rightarrow> int \<Rightarrow> bool
    \<Rightarrow> (string \<times> error option) option" where
  "indentHelper k W Render EscapeString h w n level newline =
     (let bw = NewWriter w;
          bolw = \<lparr>bolw_w = bw, bol = True\<rparr>
      in case indent k W Render EscapeString h n level bolw of
           None \<Rightarrow> None
         | Some (bolw', Some err) \<Rightarrow> deferred_Flush W (bolw_w bolw') (Some err)
         | Some (bolw', None) \<Rightarrow>
             if \<not> newline \<or> bol bolw' then deferred_Flush W (bolw_w bolw') None
             else (case WriteByte W (bolw_w bolw') (CHR 0x0A) of
                     (bw', err) \<Rightarrow> deferred_Flush W bw' err))"

definition Indent :: "nat \<Rightarrow> io_Writer \<Rightarrow> (heap \<Rightarrow> nat \<Rightarrow> error + string)
    \<Rightarrow> (string \<Rightarrow> string) \<Rightarrow> heap \<Rightarrow> string \<Rightarrow> nat \<Rightarrow> int
    \<Rightarrow> (string \<times> error option) option" where
  "Indent k W Render EscapeString h w n level =
     indentHelper k W Render EscapeString h w n level False"

definition Indentln :: "nat \<Rightarrow> io_Writer \<Rightarrow> (heap \<Rightarrow> nat \<Rightarrow> error + string)
    \<Rightarrow> (string \<Rightarrow> string) \<Rightarrow> heap \<Rightarrow> string \<Rightarrow> nat \<Rightarrow> int
    \<Rightarrow> (string \<times> error option) option" where
  "Indentln k W Render EscapeString h w n level =
     indentHelper k W Render EscapeString h w n level True"

section \<open>Trees in the store\<close>

text \<open>
  A tree of addresses, and what it means for the store to hold it: the root is
  allocated, and following \<open>FirstChild\<close> and then \<open>NextSibling\<close> from a node goes through the
  roots of its subtrees, in order, and ends in nil. Only the two pointers that the
  functions of htree.go read are constrained.
\<close>

datatype tree = Tree (root: nat) (kids: "tree list")

fun is_tree :: "heap \<Rightarrow> tree \<Rightarrow> bool"
  and is_chain :: "heap \<Rightarrow> ptr \<Rightarrow> tree list \<Rightarrow> bool" where
  "is_tree h (Tree a ts) = (a < length h \<and> is_chain h (FirstChild (h ! a)) ts)"
| "is_chain h p [] = (p = None)"
| "is_chain h p (t # ts) =
     (p = Some (root t) \<and> is_tree h t \<and> is_chain h (NextSibling (h ! root t)) ts)"

text \<open>A first argument that is enough for every function of htree.go on a tree.\<close>

fun fuel :: "tree \<Rightarrow> nat" and fuel_list :: "tree list \<Rightarrow> nat" where
  "fuel (Tree a ts) = 3 + fuel_list ts"
| "fuel_list [] = 1"
| "fuel_list (t # ts) = 1 + fuel t + fuel_list ts"

text \<open>All nodes of a tree in preorder: a node, then its children left to right.\<close>

fun preorder :: "tree \<Rightarrow> nat list" and preorder_list :: "tree list \<Rightarrow> nat list" where
  "preorder (Tree a ts) = a # preorder_list ts"
| "preorder_list [] = []"
| "preorder_list (t # ts) = preorder t @ preorder_list ts"

text \<open>
  The traversal rule of the specification: a node is visited, and its children are
  visited after it, left to right, only if it is not a text node.
\<close>

fun visit :: "heap \<Rightarrow> tree \<Rightarrow> nat list" and visit_list :: "heap \<Rightarrow> tree list \<Rightarrow> nat list" where
  "visit h (Tree a ts) = a # (if Type (h ! a) = TextNode then [] else visit_list h ts)"
| "visit_list h [] = []"
| "visit_list h (t # ts) = visit h t @ visit_list h ts"

text \<open>The data model's invariant: a text node has no children.\<close>

fun text_leaves :: "heap \<Rightarrow> tree \<Rightarrow> bool" and text_leaves_list :: "heap \<Rightarrow> tree list \<Rightarrow> bool" where
  "text_leaves h (Tree a ts) = ((Type (h ! a) = TextNode \<longrightarrow> ts = []) \<and> text_leaves_list h ts)"
| "text_leaves_list h [] = True"
| "text_leaves_list h (t # ts) = (text_leaves h t \<and> text_leaves_list h ts)"

definition not_text :: "heap \<Rightarrow> nat \<Rightarrow> bool" where
  "not_text h a = (Type (h ! a) \<noteq> TextNode)"

text \<open>
  The rule \<open>walk\<close> follows: a text node yields nothing and is not entered; any other node
  is yielded, and then its children are walked left to right.
\<close>

fun walk_order :: "heap \<Rightarrow> tree \<Rightarrow> nat list" and walk_order_list :: "heap \<Rightarrow> tree list \<Rightarrow> nat list" where
  "walk_order h (Tree a ts) = (if Type (h ! a) = TextNode then [] else a # walk_order_list h ts)"
| "walk_order_list h [] = []"
| "walk_order_list h (t # ts) = walk_order h t @ walk_order_list h ts"

text \<open>
  A consumer fed a sequence of nodes one by one, until it answers that it wants no
  more.
\<close>

fun feed :: "'s yield \<Rightarrow> nat list \<Rightarrow> 's \<Rightarrow> bool \<times> 's" where
  "feed yield [] s = (True, s)"
| "feed yield (n # ns) s =
     (let (continue, s') = yield n s in
        if \<not> continue then (False, s') else feed yield ns s')"

text \<open>
  The text of a tree as the specification gives it, piece by piece: a text node gives
  its decoded data, a \<open>br\<close> element one newline, a \<open>script\<close> or \<open>style\<close> element nothing, and
  every other node the pieces of its children.
\<close>

fun text_pieces :: "(string \<Rightarrow> string) \<Rightarrow> heap \<Rightarrow> tree \<Rightarrow> string list"
  and text_pieces_list :: "(string \<Rightarrow> string) \<Rightarrow> heap \<Rightarrow> tree list \<Rightarrow> string list" where
  "text_pieces decode h (Tree a ts) =
     (if Type (h ! a) = TextNode then [decode (Data (h ! a))]
      else if Type (h ! a) = ElementNode \<and> DataAtom (h ! a) = atom_Br then [[CHR 0x0A]]
      else if Type (h ! a) = ElementNode \<and> DataAtom (h ! a) \<in> {atom_Script, atom_Style} then []
      else text_pieces_list decode h ts)"
| "text_pieces_list decode h [] = []"
| "text_pieces_list decode h (t # ts) = text_pieces decode h t @ text_pieces_list decode h ts"

text \<open>Writing pieces one after the other, up to the first error.\<close>

fun write_all :: "'w Writer \<Rightarrow> 'w \<Rightarrow> string list \<Rightarrow> 'w \<times> error option" where
  "write_all Write w [] = (w, None)"
| "write_all Write w (p # ps) =
     (case Write w p of
        (w', Some err) \<Rightarrow> (w', Some err)
      | (w', None) \<Rightarrow> write_all Write w' ps)"

subsection \<open>What a pruned copy is\<close>

text \<open>
  The nodes \<open>cs\<close> are linked as siblings, in this order: the first one's \<open>PrevSibling\<close> is
  \<open>prev\<close>, each one's \<open>NextSibling\<close> is the next one, and the last one's is nil.
\<close>

fun siblings_linked :: "heap \<Rightarrow> ptr \<Rightarrow> nat list \<Rightarrow> bool" where
  "siblings_linked h prev [] = True"
| "siblings_linked h prev (c # cs) =
     (PrevSibling (h ! c) = prev
      \<and> NextSibling (h ! c) = (case cs of [] \<Rightarrow> None | d # _ \<Rightarrow> Some d)
      \<and> siblings_linked h (Some c) cs)"

text \<open>Node \<open>c\<close> has the fields of node \<open>n\<close>, but for the child and sibling pointers.\<close>

definition shallow_copy :: "Node \<Rightarrow> Node \<Rightarrow> bool" where
  "shallow_copy n c =
     (c = n\<lparr>FirstChild := FirstChild c, LastChild := LastChild c,
            PrevSibling := PrevSibling c, NextSibling := NextSibling c\<rparr>)"

text \<open>
  In store \<open>h'\<close>, the tree \<open>Tree c cs\<close> is a pruned copy of the tree \<open>Tree a ts\<close> of store
  \<open>h\<close>: \<open>a\<close> does not match, \<open>c\<close> is a new node and a shallow copy of \<open>a\<close>, the trees
  \<open>cs\<close> are the pruned copies of the trees of \<open>ts\<close> whose root does not match, in the
  same order, their roots are linked as siblings from nil to nil, and \<open>FirstChild\<close> and
  \<open>LastChild\<close> of \<open>c\<close> are the first and the last of them (nil when there is none).
\<close>

fun pruned_copy :: "(nat \<Rightarrow> bool) \<Rightarrow> heap \<Rightarrow> heap \<Rightarrow> tree \<Rightarrow> tree \<Rightarrow> bool"
  and pruned_copies :: "(nat \<Rightarrow> bool) \<Rightarrow> heap \<Rightarrow> heap \<Rightarrow> tree list \<Rightarrow> tree list \<Rightarrow> bool"
  where
  "pruned_copy pred h h' (Tree a ts) (Tree c cs) =
     (\<not> pred a \<and> length h \<le> c \<and> c < length h'
      \<and> shallow_copy (h ! a) (h' ! c)
      \<and> FirstChild (h' ! c) = (if cs = [] then None else Some (root (hd cs)))
      \<and> LastChild (h' ! c) = (if cs = [] then None else Some (root (last cs)))
      \<and> siblings_linked h' None (map root cs)
      \<and> pruned_copies pred h h' ts cs)"
| "pruned_copies pred h h' [] cs = (cs = [])"
| "pruned_copies pred h h' (t # ts) cs =
     (if pred (root t) then pruned_copies pred h h' ts cs
      else (case cs of
              [] \<Rightarrow> False
            | c # cs' \<Rightarrow> pruned_copy pred h h' t c \<and> pruned_copies pred h h' ts cs'))"

text \<open>Store \<open>h'\<close> is store \<open>h\<close> with new nodes: every node of \<open>h\<close> is in \<open>h'\<close>, unchanged.\<close>

definition heap_extends :: "heap \<Rightarrow> heap \<Rightarrow> bool" where
  "heap_extends h h' = (length h \<le> length h' \<and> (\<forall>a < length h. h' ! a = h ! a))"

text \<open>Auxiliary notions of the proof about \<open>Prune\<close>.\<close>

definition eq_upto_sib :: "Node \<Rightarrow> Node \<Rightarrow> bool" where
  "eq_upto_sib x y = (y = x\<lparr>PrevSibling := PrevSibling y, NextSibling := NextSibling y\<rparr>)"

definition copy_ok :: "(nat \<Rightarrow> bool) \<Rightarrow> heap \<Rightarrow> heap \<Rightarrow> tree \<Rightarrow> tree \<Rightarrow> bool" where
  "copy_ok pred h h' t t' =
     (heap_extends h h' \<and> length h' = Suc (root t') \<and> pruned_copy pred h h' t t'
      \<and> (\<forall>n \<in> set (preorder_list (kids t')). length h \<le> n \<and> n < root t')
      \<and> h' ! root t' = (h ! root t)\<lparr>
            FirstChild := (if kids t' = [] then None else Some (root (hd (kids t')))),
            LastChild := (if kids t' = [] then None else Some (root (last (kids t'))))\<rparr>)"

definition copies_ok :: "(nat \<Rightarrow> bool) \<Rightarrow> heap \<Rightarrow> heap \<Rightarrow> tree list \<Rightarrow> tree list \<Rightarrow> bool" where
  "copies_ok pred h h' ts cts =
     (heap_extends h h' \<and> pruned_copies pred h h' ts cts
      \<and> (\<forall>n \<in> set (preorder_list cts). length h \<le> n \<and> n < length h')
      \<and> (\<forall>ct \<in> set cts. \<forall>n \<in> set (preorder_list (kids ct)). n \<notin> set (map root cts))
      \<and> distinct (map root cts))"

subsection \<open>The beginning-of-line flag\<close>

text \<open>
  \<open>written w\<close> is what the caller's writer has received followed by what the buffered
  writer still holds. \<open>bol_inv w0 w\<close>: since the caller's writer held \<open>w0\<close>, bytes have
  been emitted, and the flag is set exactly when none has been emitted or the last one
  emitted is a newline. \<open>no_err\<close>: the buffered writer has no sticky error. \<open>pres I a\<close>:
  action \<open>a\<close> keeps \<open>I\<close>; \<open>byte_step I W\<close>: writing one byte keeps \<open>I\<close>.
\<close>

definition written :: "bolwriter \<Rightarrow> string" where
  "written w = bufio_wr (bolw_w w) @ bufio_buf (bolw_w w)"

definition bol_inv :: "string \<Rightarrow> bolwriter \<Rightarrow> bool" where
  "bol_inv w0 w =
     (\<exists>emitted. written w = w0 @ emitted
        \<and> (bol w \<longleftrightarrow> (emitted = [] \<or> last emitted = CHR 0x0A)))"

definition no_err :: "bolwriter \<Rightarrow> bool" where
  "no_err w = (bufio_err (bolw_w w) = None)"

definition pres :: "(bolwriter \<Rightarrow> bool) \<Rightarrow> action \<Rightarrow> bool" where
  "pres I a = (\<forall>w w' e. a w = Some (w', e) \<longrightarrow> I w \<longrightarrow> I w')"

definition byte_step :: "(bolwriter \<Rightarrow> bool) \<Rightarrow> io_Writer \<Rightarrow> bool" where
  "byte_step I W =
     (\<forall>w b bw e. I w \<longrightarrow> WriteByte W (bolw_w w) b = (bw, e) \<longrightarrow>
        (case e of
           Some _ \<Rightarrow> I (w\<lparr>bolw_w := bw\<rparr>)
         | None \<Rightarrow> I (w\<lparr>bolw_w := bw, bol := (b = CHR 0x0A)\<rparr>)))"

section \<open>Example documents\<close>

definition new_node :: "NodeType \<Rightarrow> atom \<Rightarrow> string \<Rightarrow> Node" where
  "new_node ty a d =
     \<lparr>Parent = None, FirstChild = None, LastChild = None, PrevSibling = None,
      NextSibling = None, Type = ty, DataAtom = a, Data = d, Namespace = [], Attr = []\<rparr>"

text \<open>
  The tree that \<^verbatim>\<open>html.Parse\<close> builds from \<^verbatim>\<open><div>x<br>y</div>\<close>: the document node, \<open>html\<close>,
  an empty \<open>head\<close>, and \<open>body\<close> with the \<open>div\<close>, whose children are the text \<open>x\<close>, the \<open>br\<close>
  element and the text \<open>y\<close>.
\<close>

definition div_x_br_y :: heap where
  "div_x_br_y = [
     (new_node DocumentNode (atom_Other 0) [])\<lparr>FirstChild := Some 1, LastChild := Some 1\<rparr>,
     (new_node ElementNode atom_Html ''html'')
        \<lparr>Parent := Some 0, FirstChild := Some 2, LastChild := Some 3\<rparr>,
     (new_node ElementNode atom_Head ''head'')\<lparr>Parent := Some 1, NextSibling := Some 3\<rparr>,
     (new_node ElementNode atom_Body ''body'')
        \<lparr>Parent := Some 1, FirstChild := Some 4, LastChild := Some 4, PrevSibling := Some 2\<rparr>,
     (new_node ElementNode atom_Div ''div'')
        \<lparr>Parent := Some 3, FirstChild := Some 5, LastChild := Some 7\<rparr>,
     (new_node TextNode (atom_Other 0) ''x'')\<lparr>Parent := Some 4, NextSibling := Some 6\<rparr>,
     (new_node ElementNode atom_Br ''br'')
        \<lparr>Parent := Some 4, PrevSibling := Some 5, NextSibling := Some 7\<rparr>,
     (new_node TextNode (atom_Other 0) ''y'')\<lparr>Parent := Some 4, PrevSibling := Some 6\<rparr>]"

definition div_x_br_y_tree :: tree where
  "div_x_br_y_tree =
     Tree 0 [Tree 1 [Tree 2 [], Tree 3 [Tree 4 [Tree 5 [], Tree 6 [], Tree 7 []]]]]"

text \<open>A text node alone.\<close>

definition text_alone :: heap where
  "text_alone = [new_node TextNode (atom_Other 0) ''x'']"

text \<open>A \<open>div\<close> element whose only child is a \<open>div\<close> element.\<close>

definition div_in_div :: heap where
  "div_in_div = [
     (new_node ElementNode atom_Div ''div'')\<lparr>FirstChild := Some 1, LastChild := Some 1\<rparr>,
     (new_node ElementNode atom_Div ''div'')\<lparr>Parent := Some 0\<rparr>]"

text \<open>A document node without children.\<close>

definition empty_document :: heap where
  "empty_document = [new_node DocumentNode (atom_Other 0) []]"

text \<open>A \<open>span\<close> element whose only child is the text \<open>x\<close>.\<close>

definition span_x :: heap where
  "span_x = [
     (new_node ElementNode (atom_Other 1) ''span'')\<lparr>FirstChild := Some 1, LastChild := Some 1\<rparr>,
     (new_node TextNode (atom_Other 0) ''x'')\<lparr>Parent := Some 0\<rparr>]"

text \<open>Predicates on the nodes of a store, as a caller would pass them.\<close>

definition has_atom :: "heap \<Rightarrow> atom \<Rightarrow> nat \<Rightarrow> bool" where
  "has_atom h a n = (DataAtom (h ! n) = a)"

definition is_text :: "heap \<Rightarrow> nat \<Rightarrow> bool" where
  "is_text h n = (Type (h ! n) = TextNode)"

text \<open>A text node with data \<open>a\<close> whose only child is a text node with data \<open>b\<close>.\<close>

definition text_in_text :: heap where
  "text_in_text = [
     (new_node TextNode (atom_Other 0) ''a'')\<lparr>FirstChild := Some 1, LastChild := Some 1\<rparr>,
     (new_node TextNode (atom_Other 0) ''b'')\<lparr>Parent := Some 0\<rparr>]"

text \<open>
  A writer that takes every byte and never fails (as a \<^verbatim>\<open>bytes.Buffer\<close>), and a writer
  that takes nothing and fails on every call.
\<close>

definition accept_all :: io_Writer where
  "accept_all received p = (length p, None)"

definition refuse_all :: io_Writer where
  "refuse_all received p = (0, Some (Error ''write refused''))"

text \<open>
  Stand-ins for the functions of package html on text without markup characters: such
  text is its own rendering, escaping and decoding.
\<close>

definition render_data :: "heap \<Rightarrow> nat \<Rightarrow> error + string" where
  "render_data h n = Inr (Data (h ! n))"

definition plain :: "string \<Rightarrow> string" where
  "plain s = s"

section \<open>Auxiliary notions of the proofs\<close>

text \<open>
  The pieces that \<open>WriteText\<close> writes, read off its code: as \<open>text_pieces\<close>, but a text node
  is followed by the pieces of its children (a text node of a parsed document has none).
\<close>

fun written_pieces :: "(string \<Rightarrow> string) \<Rightarrow> heap \<Rightarrow> tree \<Rightarrow> string list"
  and written_pieces_list :: "(string \<Rightarrow> string) \<Rightarrow> heap \<Rightarrow> tree list \<Rightarrow> string list" where
  "written_pieces decode h (Tree a ts) =
     (if Type (h ! a) = TextNode then decode (Data (h ! a)) # written_pieces_list decode h ts
      else if Type (h ! a) = ElementNode \<and> DataAtom (h ! a) = atom_Br then [[CHR 0x0A]]
      else if Type (h ! a) = ElementNode \<and> DataAtom (h ! a) \<in> {atom_Script, atom_Style} then []
      else written_pieces_list decode h ts)"
| "written_pieces_list decode h [] = []"
| "written_pieces_list decode h (t # ts) =
     written_pieces decode h t @ written_pieces_list decode h ts"

text \<open>An action that returns, with or without an error, on every writer.\<close>

definition returns :: "action \<Rightarrow> bool" where
  "returns a = (\<forall>w. a w \<noteq> None)"

section \<open>Lemmas: the traversals\<close>

lemma is_tree_root_less: "is_tree h t \<Longrightarrow> root t < length h"
  by (cases t) simp

lemma find_append_None: "find P xs = None \<Longrightarrow> find P (xs @ ys) = find P ys"
  by (induction xs) (auto split: if_splits)

lemma find_append_Some: "find P xs = Some x \<Longrightarrow> find P (xs @ ys) = Some x"
  by (induction xs) (auto split: if_splits)

lemma Find_visit_aux:
  "(\<forall>t. is_tree h t \<longrightarrow> fuel t \<le> k \<longrightarrow> Find k h (root t) pred = Some (find pred (visit h t)))
   \<and> (\<forall>ts p. is_chain h p ts \<longrightarrow> fuel_list ts \<le> k \<longrightarrow>
         Find_loop k h p pred = Some (find pred (visit_list h ts)))"
proof (induction k)
  case 0
  show ?case
  proof (intro conjI allI impI)
    fix t assume "fuel t \<le> 0" then show "Find 0 h (root t) pred = Some (find pred (visit h t))"
      by (cases t) simp
  next
    fix ts p assume "fuel_list ts \<le> 0"
    then show "Find_loop 0 h p pred = Some (find pred (visit_list h ts))"
      by (cases ts) simp_all
  qed
next
  case (Suc k)
  then have IHt: "\<And>t. is_tree h t \<Longrightarrow> fuel t \<le> k \<Longrightarrow> Find k h (root t) pred = Some (find pred (visit h t))"
    and IHl: "\<And>ts p. is_chain h p ts \<Longrightarrow> fuel_list ts \<le> k \<Longrightarrow>
         Find_loop k h p pred = Some (find pred (visit_list h ts))"
    by blast+
  show ?case
  proof (intro conjI allI impI)
    fix t assume t: "is_tree h t" "fuel t \<le> Suc k"
    obtain a ts where [simp]: "t = Tree a ts" by (cases t)
    from t have "fuel_list ts \<le> k" "is_chain h (FirstChild (h ! a)) ts" "a < length h" by simp_all
    then show "Find (Suc k) h (root t) pred = Some (find pred (visit h t))"
      using IHl by (simp add: deref_def)
  next
    fix ts p assume l: "is_chain h p ts" "fuel_list ts \<le> Suc k"
    show "Find_loop (Suc k) h p pred = Some (find pred (visit_list h ts))"
    proof (cases ts)
      case Nil
      with l show ?thesis by simp
    next
      case (Cons t ts')
      with l have p: "p = Some (root t)" and t: "is_tree h t" "fuel t \<le> k"
        and r: "is_chain h (NextSibling (h ! root t)) ts'" "fuel_list ts' \<le> k"
        by simp_all
      from t have lt: "root t < length h" by (cases t) simp
      show ?thesis
        using IHt[OF t] IHl[OF r] lt
        by (cases "find pred (visit h t)")
           (simp_all add: Cons p deref_def find_append_None find_append_Some)
    qed
  qed
qed

lemma feed_append:
  "feed y (xs @ ys) s = (let (c, s') = feed y xs s in if \<not> c then (False, s') else feed y ys s')"
  by (induction xs arbitrary: s) (auto split: prod.splits)

lemma feed_append_yield: "feed append_yield xs acc = (True, acc @ xs)"
  by (induction xs arbitrary: acc) (auto simp: append_yield_def)

lemma walk_feed_aux:
  "(\<forall>t s. is_tree h t \<longrightarrow> fuel t \<le> k \<longrightarrow>
       walk k h (root t) y s = Some (feed y (filter (not_text h) (visit h t)) s))
   \<and> (\<forall>ts p s. is_chain h p ts \<longrightarrow> fuel_list ts \<le> k \<longrightarrow>
       walk_loop k h p y s = Some (feed y (filter (not_text h) (visit_list h ts)) s))"
proof (induction k)
  case 0
  show ?case
  proof (intro conjI allI impI)
    fix t s assume "fuel t \<le> 0"
    then show "walk 0 h (root t) y s = Some (feed y (filter (not_text h) (visit h t)) s)"
      by (cases t) simp
  next
    fix ts p s assume "fuel_list ts \<le> 0"
    then show "walk_loop 0 h p y s = Some (feed y (filter (not_text h) (visit_list h ts)) s)"
      by (cases ts) simp_all
  qed
next
  case (Suc k)
  then have IHt: "\<And>t s. is_tree h t \<Longrightarrow> fuel t \<le> k \<Longrightarrow>
       walk k h (root t) y s = Some (feed y (filter (not_text h) (visit h t)) s)"
    and IHl: "\<And>ts p s. is_chain h p ts \<Longrightarrow> fuel_list ts \<le> k \<Longrightarrow>
       walk_loop k h p y s = Some (feed y (filter (not_text h) (visit_list h ts)) s)"
    by blast+
  show ?case
  proof (intro conjI allI impI)
    fix t s assume t: "is_tree h t" "fuel t \<le> Suc k"
    obtain a ts where [simp]: "t = Tree a ts" by (cases t)
    from t have "fuel_list ts \<le> k" "is_chain h (FirstChild (h ! a)) ts" "a < length h" by simp_all
    then show "walk (Suc k) h (root t) y s = Some (feed y (filter (not_text h) (visit h t)) s)"
      using IHl by (simp add: deref_def not_text_def split: prod.splits)
  next
    fix ts p s assume l: "is_chain h p ts" "fuel_list ts \<le> Suc k"
    show "walk_loop (Suc k) h p y s = Some (feed y (filter (not_text h) (visit_list h ts)) s)"
    proof (cases ts)
      case Nil
      with l show ?thesis by simp
    next
      case (Cons t ts')
      with l have p: "p = Some (root t)" and t: "is_tree h t" "fuel t \<le> k"
        and r: "is_chain h (NextSibling (h ! root t)) ts'" "fuel_list ts' \<le> k"
        by simp_all
      from t(1) have lt: "root t < length h" by (rule is_tree_root_less)
      show ?thesis
        using IHt[OF t] IHl[OF r] lt
        by (simp add: Cons p deref_def feed_append split: prod.splits)
    qed
  qed
qed

lemma findAll_feed_aux:
  "(\<forall>t s. is_tree h t \<longrightarrow> fuel t \<le> k \<longrightarrow>
       findAll k h (root t) pred y s = Some (feed y (filter pred (visit h t)) s))
   \<and> (\<forall>ts p s. is_chain h p ts \<longrightarrow> fuel_list ts \<le> k \<longrightarrow>
       findAllChildren_loop k h p pred y s = Some (feed y (filter pred (visit_list h ts)) s))"
proof (induction k rule: less_induct)
  case (less k)
  then have IHt: "\<And>j t s. j < k \<Longrightarrow> is_tree h t \<Longrightarrow> fuel t \<le> j \<Longrightarrow>
       findAll j h (root t) pred y s = Some (feed y (filter pred (visit h t)) s)"
    and IHl: "\<And>j ts p s. j < k \<Longrightarrow> is_chain h p ts \<Longrightarrow> fuel_list ts \<le> j \<Longrightarrow>
       findAllChildren_loop j h p pred y s = Some (feed y (filter pred (visit_list h ts)) s)"
    by blast+
  show ?case
  proof (intro conjI allI impI)
    fix t s assume t: "is_tree h t" "fuel t \<le> k"
    obtain a ts where [simp]: "t = Tree a ts" by (cases t)
    define j where "j = k - 2"
    from t have k: "k = Suc (Suc j)" and j: "fuel_list ts \<le> j" "j < k"
      by (simp_all add: j_def)
    from t have "is_chain h (FirstChild (h ! a)) ts" "a < length h" by simp_all
    then show "findAll k h (root t) pred y s = Some (feed y (filter pred (visit h t)) s)"
      using IHl[OF j(2) _ j(1)] by (simp add: k deref_def split: prod.splits)
  next
    fix ts p s assume l: "is_chain h p ts" "fuel_list ts \<le> k"
    show "findAllChildren_loop k h p pred y s = Some (feed y (filter pred (visit_list h ts)) s)"
    proof (cases ts)
      case Nil
      with l show ?thesis by (cases k) simp_all
    next
      case (Cons t ts')
      define j where "j = k - 1"
      from l Cons have k: "k = Suc j" "j < k" by (simp_all add: j_def)
      from l Cons k have p: "p = Some (root t)" and t: "is_tree h t" "fuel t \<le> j"
        and r: "is_chain h (NextSibling (h ! root t)) ts'" "fuel_list ts' \<le> j"
        by simp_all
      from t(1) have lt: "root t < length h" by (rule is_tree_root_less)
      show ?thesis
        using IHt[OF k(2) t] IHl[OF k(2) r] lt
        by (simp add: Cons p k deref_def feed_append split: prod.splits)
    qed
  qed
qed

lemma walk_order_filter:
  "walk_order h t = filter (not_text h) (visit h t)"
  "walk_order_list h ts = filter (not_text h) (visit_list h ts)"
  by (induction h t and h ts rule: visit_visit_list.induct) (simp_all add: not_text_def)

lemma walk_feed:
  assumes "is_tree h t" and "fuel t \<le> k"
  shows "walk k h (root t) yield s = Some (feed yield (walk_order h t) s)"
  using walk_feed_aux[of h k yield] assms by (simp add: walk_order_filter)

lemma findAll_feed:
  assumes "is_tree h t" and "fuel t \<le> k"
  shows "findAll k h (root t) pred yield s = Some (feed yield (filter pred (visit h t)) s)"
  using findAll_feed_aux[of h k pred yield] assms by simp

lemma Walk_collect:
  assumes "is_tree h t" and "fuel t \<le> k"
  shows "collect_seq (Walk k h (root t)) = Some (walk_order h t)"
  by (simp add: collect_seq_def Walk_def walk_feed[OF assms] feed_append_yield)

lemma FindAll_collect:
  assumes "is_tree h t" and "fuel t \<le> k"
  shows "collect_seq (FindAll k h (root t) pred) = Some (filter pred (visit h t))"
  by (simp add: collect_seq_def FindAll_def findAll_feed[OF assms] feed_append_yield)

lemma visit_preorder:
  "text_leaves h t \<Longrightarrow> visit h t = preorder t"
  "text_leaves_list h ts \<Longrightarrow> visit_list h ts = preorder_list ts"
  by (induction h t and h ts rule: visit_visit_list.induct) auto

lemma Find_visit:
  assumes "is_tree h t" and "fuel t \<le> k"
  shows "Find k h (root t) pred = Some (find pred (visit h t))"
  using Find_visit_aux[of h k pred] assms by blast

section \<open>Lemmas: text extraction\<close>

lemma write_all_append:
  "write_all W w (ps @ qs) =
     (case write_all W w ps of (w', Some err) \<Rightarrow> (w', Some err) | (w', None) \<Rightarrow> write_all W w' qs)"
  by (induction ps arbitrary: w) (auto split: prod.splits option.splits)

lemma write_all_Buffer: "write_all Buffer_Write buf ps = (buf @ concat ps, None)"
  by (induction ps arbitrary: buf) (simp_all add: Buffer_Write_def)

lemma written_pieces_text_leaves:
  "text_leaves h t \<Longrightarrow> written_pieces U h t = text_pieces U h t"
  "text_leaves_list h ts \<Longrightarrow> written_pieces_list U h ts = text_pieces_list U h ts"
  by (induction U h t and U h ts rule: text_pieces_text_pieces_list.induct) auto

lemma WriteText_written_aux:
  "(\<forall>t w. is_tree h t \<longrightarrow> fuel t \<le> k \<longrightarrow>
       WriteText k W U h w (root t) = Some (write_all W w (written_pieces U h t)))
   \<and> (\<forall>ts p w. is_chain h p ts \<longrightarrow> fuel_list ts \<le> k \<longrightarrow>
       WriteText_loop k W U h w p = Some (write_all W w (written_pieces_list U h ts)))"
proof (induction k rule: less_induct)
  case (less k)
  then have IHt: "\<And>j t w. j < k \<Longrightarrow> is_tree h t \<Longrightarrow> fuel t \<le> j \<Longrightarrow>
       WriteText j W U h w (root t) = Some (write_all W w (written_pieces U h t))"
    and IHl: "\<And>j ts p w. j < k \<Longrightarrow> is_chain h p ts \<Longrightarrow> fuel_list ts \<le> j \<Longrightarrow>
       WriteText_loop j W U h w p = Some (write_all W w (written_pieces_list U h ts))"
    by blast+
  show ?case
  proof (intro conjI allI impI)
    fix t w assume t: "is_tree h t" "fuel t \<le> k"
    obtain a ts where [simp]: "t = Tree a ts" by (cases t)
    define j where "j = k - 1"
    from t have k: "k = Suc j" and j: "j < k" "fuel_list ts \<le> j"
      by (simp_all add: j_def)
    from t have a: "a < length h" and ch: "is_chain h (FirstChild (h ! a)) ts"
      by simp_all
    note L = IHl[OF j(1) ch j(2)]
    show "WriteText k W U h w (root t) = Some (write_all W w (written_pieces U h t))"
      using a L
      by (cases "Type (h ! a)") (auto simp add: k deref_def split: prod.splits option.splits)
  next
    fix ts p w assume l: "is_chain h p ts" "fuel_list ts \<le> k"
    define j where "j = k - 1"
    from l have k: "k = Suc j" "j < k" by (cases ts; simp add: j_def)+
    show "WriteText_loop k W U h w p = Some (write_all W w (written_pieces_list U h ts))"
    proof (cases ts)
      case Nil
      with l show ?thesis by (simp add: k)
    next
      case (Cons t ts')
      from l Cons k have p: "p = Some (root t)" and t: "is_tree h t" "fuel t \<le> j"
        and r: "is_chain h (NextSibling (h ! root t)) ts'" "fuel_list ts' \<le> j"
        by simp_all
      from t(1) have lt: "root t < length h" by (rule is_tree_root_less)
      show ?thesis
        using IHt[OF k(2) t] IHl[OF k(2) r] lt
        by (simp add: Cons p k deref_def write_all_append split: prod.splits option.splits)
    qed
  qed
qed

lemma WriteText_written:
  assumes "is_tree h t" and "fuel t \<le> k"
  shows "WriteText k W U h w (root t) = Some (write_all W w (written_pieces U h t))"
  using WriteText_written_aux[of h k W U] assms by blast

section \<open>Lemmas: pruning\<close>

lemma length_relink_step [simp]: "length (relink_step cs h i) = length h"
  by (simp add: relink_step_def Let_def)

lemma length_foldl_relink [simp]: "length (foldl (relink_step cs) h is) = length h"
  by (induction "is" arbitrary: h) simp_all

lemma length_relink [simp]: "length (relink cs h) = length h"
  by (simp add: relink_def)

lemma relink_step_other: "a \<noteq> cs ! i \<Longrightarrow> relink_step cs h i ! a = h ! a"
  by (simp add: relink_step_def Let_def)

lemma relink_step_at:
  "cs ! i < length h \<Longrightarrow>
   relink_step cs h i ! (cs ! i) =
     (h ! (cs ! i))\<lparr>PrevSibling := (if i = 0 then None else Some (cs ! (i - 1))),
                    NextSibling := (if i = length cs - 1 then None else Some (cs ! (i + 1)))\<rparr>"
  by (simp add: relink_step_def Let_def)

lemma foldl_relink_upto:
  assumes "distinct cs" "\<forall>c \<in> set cs. c < length h" "m \<le> length cs"
  shows "(\<forall>a. a \<notin> set (take m cs) \<longrightarrow> foldl (relink_step cs) h [0..<m] ! a = h ! a)
       \<and> (\<forall>i<m. foldl (relink_step cs) h [0..<m] ! (cs ! i) =
            (h ! (cs ! i))\<lparr>PrevSibling := (if i = 0 then None else Some (cs ! (i - 1))),
                    NextSibling := (if i = length cs - 1 then None else Some (cs ! (i + 1)))\<rparr>)"
  using assms(3)
proof (induction m)
  case 0
  then show ?case by simp
next
  case (Suc m)
  then have m: "m < length cs" and IH1: "\<And>a. a \<notin> set (take m cs) \<Longrightarrow> foldl (relink_step cs) h [0..<m] ! a = h ! a"
    and IH2: "\<And>i. i < m \<Longrightarrow> foldl (relink_step cs) h [0..<m] ! (cs ! i) =
            (h ! (cs ! i))\<lparr>PrevSibling := (if i = 0 then None else Some (cs ! (i - 1))),
                    NextSibling := (if i = length cs - 1 then None else Some (cs ! (i + 1)))\<rparr>"
    by simp_all
  let ?g = "foldl (relink_step cs) h [0..<m]"
  have fold: "foldl (relink_step cs) h [0..<Suc m] = relink_step cs ?g m" by simp
  have take: "set (take (Suc m) cs) = insert (cs ! m) (set (take m cs))"
    using m by (simp add: take_Suc_conv_app_nth)
  have notin: "cs ! m \<notin> set (take m cs)"
    using assms(1) m by (metis distinct_take id_take_nth_drop not_distinct_conv_prefix)
  have lt: "cs ! m < length ?g" using assms(2) m by simp
  show ?case
  proof (intro conjI allI impI)
    fix a assume "a \<notin> set (take (Suc m) cs)"
    then have "a \<noteq> cs ! m" "a \<notin> set (take m cs)" by (simp_all add: take)
    then show "foldl (relink_step cs) h [0..<Suc m] ! a = h ! a"
      unfolding fold by (simp add: relink_step_other IH1)
  next
    fix i assume i: "i < Suc m"
    show "foldl (relink_step cs) h [0..<Suc m] ! (cs ! i) =
            (h ! (cs ! i))\<lparr>PrevSibling := (if i = 0 then None else Some (cs ! (i - 1))),
                    NextSibling := (if i = length cs - 1 then None else Some (cs ! (i + 1)))\<rparr>"
    proof (cases "i = m")
      case True
      show ?thesis unfolding fold True relink_step_at[OF lt] using IH1[OF notin] by simp
    next
      case False
      with i have im: "i < m" by simp
      with m assms(1) have "cs ! i \<noteq> cs ! m" by (simp add: nth_eq_iff_index_eq)
      then show ?thesis unfolding fold by (simp add: relink_step_other IH2[OF im])
    qed
  qed
qed

lemma relink_other:
  assumes "distinct cs" "\<forall>c \<in> set cs. c < length h" "a \<notin> set cs"
  shows "relink cs h ! a = h ! a"
  using foldl_relink_upto[OF assms(1,2), of "length cs"] assms(3) by (simp add: relink_def)

lemma relink_at:
  assumes "distinct cs" "\<forall>c \<in> set cs. c < length h" "i < length cs"
  shows "relink cs h ! (cs ! i) =
            (h ! (cs ! i))\<lparr>PrevSibling := (if i = 0 then None else Some (cs ! (i - 1))),
                    NextSibling := (if i = length cs - 1 then None else Some (cs ! (i + 1)))\<rparr>"
  using foldl_relink_upto[OF assms(1,2), of "length cs"] assms(3) by (simp add: relink_def)

lemma siblings_linked_cong:
  "\<forall>c \<in> set cs. h' ! c = h ! c \<Longrightarrow> siblings_linked h' prev cs = siblings_linked h prev cs"
  by (induction cs arbitrary: prev) auto

lemma siblings_linked_index:
  assumes "\<And>i. i < length cs \<Longrightarrow> PrevSibling (h ! (cs ! i)) = (if i = 0 then prev else Some (cs ! (i - 1)))"
    and "\<And>i. i < length cs \<Longrightarrow> NextSibling (h ! (cs ! i)) = (if i = length cs - 1 then None else Some (cs ! (i + 1)))"
  shows "siblings_linked h prev cs"
  using assms
proof (induction cs arbitrary: prev)
  case Nil
  then show ?case by simp
next
  case (Cons c cs)
  have p: "PrevSibling (h ! c) = prev" using Cons.prems(1)[of 0] by simp
  have n: "NextSibling (h ! c) = (case cs of [] \<Rightarrow> None | d # _ \<Rightarrow> Some d)"
    using Cons.prems(2)[of 0] by (cases cs) simp_all
  have "siblings_linked h (Some c) cs"
  proof (rule Cons.IH)
    fix i assume i: "i < length cs"
    show "PrevSibling (h ! (cs ! i)) = (if i = 0 then Some c else Some (cs ! (i - 1)))"
      using Cons.prems(1)[of "Suc i"] i by (cases i) simp_all
    show "NextSibling (h ! (cs ! i)) = (if i = length cs - 1 then None else Some (cs ! (i + 1)))"
      using Cons.prems(2)[of "Suc i"] i by (cases cs) auto
  qed
  with p n show ?case by simp
qed

lemma siblings_linked_relink:
  assumes "distinct cs" "\<forall>c \<in> set cs. c < length h"
  shows "siblings_linked (relink cs h) None cs"
  by (rule siblings_linked_index) (simp_all add: relink_at[OF assms])

lemma shallow_copy_eq_upto_sib:
  "eq_upto_sib x y \<Longrightarrow> shallow_copy n x \<Longrightarrow> shallow_copy n y"
  unfolding eq_upto_sib_def shallow_copy_def
  by (cases n; cases x; cases y) simp

lemma set_map_root_subset: "set (map root ts) \<subseteq> set (preorder_list ts)"
  by (induction ts) (auto, case_tac a, simp)

lemma pruned_copies_Nil: "pruned_copies pred h h' ts [] \<Longrightarrow> pruned_copies pred h h'' ts []"
  by (induction ts) (auto split: if_splits)

lemma pruned_copy_target:
  "pruned_copy pred h h' t c \<Longrightarrow> length h' \<le> length h'' \<Longrightarrow>
     eq_upto_sib (h' ! root c) (h'' ! root c) \<Longrightarrow>
     \<forall>n \<in> set (preorder_list (kids c)). h'' ! n = h' ! n \<Longrightarrow>
     pruned_copy pred h h'' t c"
  and pruned_copies_target:
  "pruned_copies pred h h' ts cs \<Longrightarrow> length h' \<le> length h'' \<Longrightarrow>
     \<forall>n \<in> set (preorder_list cs). h'' ! n = h' ! n \<Longrightarrow>
     pruned_copies pred h h'' ts cs"
proof (induction c and cs arbitrary: t and ts rule: preorder_preorder_list.induct)
  case (1 a cs)
  note pc = "1.prems"(1) and len = "1.prems"(2) and eq = "1.prems"(3) and same = "1.prems"(4)
  obtain b ts where t: "t = Tree b ts" by (cases t)
  from same have same': "\<forall>n \<in> set (preorder_list cs). h'' ! n = h' ! n" by simp
  with set_map_root_subset[of cs] have "\<forall>c \<in> set (map root cs). h'' ! c = h' ! c" by blast
  then have sl: "siblings_linked h'' None (map root cs) = siblings_linked h' None (map root cs)"
    by (rule siblings_linked_cong)
  from eq have fl: "FirstChild (h'' ! a) = FirstChild (h' ! a)" "LastChild (h'' ! a) = LastChild (h' ! a)"
    unfolding eq_upto_sib_def by (cases "h' ! a"; cases "h'' ! a"; simp)+
  from pc have "pruned_copies pred h h' ts cs" by (simp add: t)
  then have "pruned_copies pred h h'' ts cs" using len same' by (rule "1.IH")
  with pc eq len sl fl show ?case
    by (auto simp add: t intro: shallow_copy_eq_upto_sib)
next
  case 2
  then show ?case by (simp add: pruned_copies_Nil)
next
  case (3 c cs)
  note pc = "3.prems"(1) and len = "3.prems"(2) and same = "3.prems"(3)
  from same have rc: "h'' ! root c = h' ! root c" by (cases c) simp
  then have eq: "eq_upto_sib (h' ! root c) (h'' ! root c)" by (simp add: eq_upto_sib_def)
  from same have kc: "\<forall>n \<in> set (preorder_list (kids c)). h'' ! n = h' ! n" by (cases c) simp
  from same have ks: "\<forall>n \<in> set (preorder_list cs). h'' ! n = h' ! n" by simp
  from pc show ?case
  proof (induction ts)
    case Nil
    then show ?case by simp
  next
    case (Cons t ts)
    then show ?case using "3.IH"(1)[OF _ len eq kc] "3.IH"(2)[OF _ len ks]
      by (auto split: if_splits)
  qed
qed

lemma heap_extends_refl [simp]: "heap_extends h h"
  by (simp add: heap_extends_def)

lemma heap_extends_trans: "heap_extends h h1 \<Longrightarrow> heap_extends h1 h2 \<Longrightarrow> heap_extends h h2"
  by (auto simp: heap_extends_def)

lemma heap_extends_append [simp]: "heap_extends h (h @ xs)"
  by (simp add: heap_extends_def nth_append)

lemma heap_extends_relink:
  assumes "distinct cs" "\<forall>c \<in> set cs. length h \<le> c \<and> c < length h1" "heap_extends h h1"
  shows "heap_extends h (relink cs h1)"
proof -
  have "relink cs h1 ! a = h1 ! a" if "a < length h" for a
    using assms(1,2) that by (intro relink_other) auto
  with assms(3) show ?thesis by (simp add: heap_extends_def)
qed

lemma is_tree_extends:
  "is_tree h t \<Longrightarrow> heap_extends h h' \<Longrightarrow> is_tree h' t"
  and is_chain_extends:
  "is_chain h p ts \<Longrightarrow> heap_extends h h' \<Longrightarrow> is_chain h' p ts"
proof (induction h t and h p ts rule: is_tree_is_chain.induct)
  case (1 h a ts)
  then show ?case by (auto simp: heap_extends_def)
next
  case (2 h p)
  then show ?case by simp
next
  case (3 h p t ts)
  from "3.prems" have "root t < length h" by (auto dest: is_tree_root_less)
  with 3 show ?case by (auto simp: heap_extends_def)
qed

lemma preorder_less:
  "is_tree h t \<Longrightarrow> \<forall>n \<in> set (preorder t). n < length h"
  and preorder_list_less:
  "is_chain h p ts \<Longrightarrow> \<forall>n \<in> set (preorder_list ts). n < length h"
  by (induction h t and h p ts rule: is_tree_is_chain.induct) auto

lemma pruned_copy_source:
  "pruned_copy pred h1 h' t c \<Longrightarrow> heap_extends h h1 \<Longrightarrow> \<forall>n \<in> set (preorder t). n < length h \<Longrightarrow>
     pruned_copy pred h h' t c"
  and pruned_copies_source:
  "pruned_copies pred h1 h' ts cs \<Longrightarrow> heap_extends h h1 \<Longrightarrow> \<forall>n \<in> set (preorder_list ts). n < length h \<Longrightarrow>
     pruned_copies pred h h' ts cs"
proof (induction pred h1 h' t c and pred h1 h' ts cs rule: pruned_copy_pruned_copies.induct)
  case (1 pred h1 h' a ts c cs)
  then show ?case by (auto simp: heap_extends_def)
next
  case (2 pred h1 h' cs)
  then show ?case by simp
next
  case (3 pred h1 h' t ts cs)
  then show ?case by (cases cs) (auto split: if_splits)
qed

lemma pruned_copies_target_roots:
  "pruned_copies pred h h' ts cs \<Longrightarrow> length h' \<le> length h'' \<Longrightarrow>
   \<forall>c \<in> set cs. eq_upto_sib (h' ! root c) (h'' ! root c)
      \<and> (\<forall>n \<in> set (preorder_list (kids c)). h'' ! n = h' ! n) \<Longrightarrow>
   pruned_copies pred h h'' ts cs"
proof (induction ts arbitrary: cs)
  case Nil
  then show ?case by simp
next
  case (Cons t ts)
  show ?case
  proof (cases "pred (root t)")
    case True
    with Cons show ?thesis by simp
  next
    case False
    with Cons.prems(1) obtain c cs' where cs: "cs = c # cs'"
      and c: "pruned_copy pred h h' t c" and r: "pruned_copies pred h h' ts cs'"
      by (cases cs) auto
    from Cons.prems(3) cs have "pruned_copy pred h h'' t c"
      by (intro pruned_copy_target[OF c Cons.prems(2)]) auto
    moreover from Cons.prems(3) cs have "pruned_copies pred h h'' ts cs'"
      by (intro Cons.IH[OF r Cons.prems(2)]) auto
    ultimately show ?thesis using False cs by simp
  qed
qed

lemma pruned_copy_root_ge: "pruned_copy pred h h' t c \<Longrightarrow> length h \<le> root c \<and> root c < length h'"
  by (cases t; cases c) simp

lemma preorder_eq: "preorder t = root t # preorder_list (kids t)"
  by (cases t) simp

lemma copies_ok_Cons:
  assumes t: "is_tree h t" and np: "\<not> pred (root t)"
    and c: "copy_ok pred h h1 t ct"
    and ts: "\<forall>n \<in> set (preorder_list ts). n < length h"
    and cs: "copies_ok pred h1 h' ts cts"
  shows "copies_ok pred h h' (t # ts) (ct # cts)"
proof -
  from c have e1: "heap_extends h h1" and l1: "length h1 = Suc (root ct)"
    and pc: "pruned_copy pred h h1 t ct"
    and kn: "\<forall>n \<in> set (preorder_list (kids ct)). length h \<le> n \<and> n < root ct"
    by (simp_all add: copy_ok_def)
  from cs have e2: "heap_extends h1 h'" and pcs: "pruned_copies pred h1 h' ts cts"
    and cn: "\<forall>n \<in> set (preorder_list cts). length h1 \<le> n \<and> n < length h'"
    and dr: "\<forall>c \<in> set cts. \<forall>n \<in> set (preorder_list (kids c)). n \<notin> set (map root cts)"
    and di: "distinct (map root cts)"
    by (simp_all add: copies_ok_def)
  from pc have rg: "length h \<le> root ct" by (simp add: pruned_copy_root_ge)
  from e1 e2 have e: "heap_extends h h'" by (rule heap_extends_trans)
  from e1 e2 have len: "length h \<le> length h1" "length h1 \<le> length h'" by (simp_all add: heap_extends_def)
  have same: "h' ! n = h1 ! n" if "n < length h1" for n
    using e2 that by (simp add: heap_extends_def)
  have "pruned_copy pred h h' t ct"
  proof (rule pruned_copy_target[OF pc len(2)])
    show "eq_upto_sib (h1 ! root ct) (h' ! root ct)" using same[of "root ct"] l1 by (simp add: eq_upto_sib_def)
    show "\<forall>n \<in> set (preorder_list (kids ct)). h' ! n = h1 ! n" 
    proof
      fix n assume "n \<in> set (preorder_list (kids ct))"
      with kn l1 have "n < length h1" by auto
      then show "h' ! n = h1 ! n" by (rule same)
    qed
  qed
  moreover have "pruned_copies pred h h' ts cts"
    using pcs e1 ts by (rule pruned_copies_source)
  moreover have "\<forall>n \<in> set (preorder_list (ct # cts)). length h \<le> n \<and> n < length h'"
    using kn cn rg l1 len by (auto simp: preorder_eq[of ct])
  moreover have roots: "\<forall>r \<in> set (map root cts). length h1 \<le> r"
    using cn set_map_root_subset[of cts] by blast
  have "\<forall>c \<in> set (ct # cts). \<forall>n \<in> set (preorder_list (kids c)). n \<notin> set (map root (ct # cts))"
  proof (intro ballI)
    fix c n assume c: "c \<in> set (ct # cts)" and n: "n \<in> set (preorder_list (kids c))"
    show "n \<notin> set (map root (ct # cts))"
    proof (cases "c = ct")
      case True
      with n kn have "n < root ct" by simp
      with roots l1 show ?thesis by auto
    next
      case False
      with c have c': "c \<in> set cts" by simp
      then have "set (preorder c) \<subseteq> set (preorder_list cts)" by (induction cts) auto
      with n have "n \<in> set (preorder_list cts)" by (auto simp: preorder_eq[of c])
      with cn l1 have "n \<noteq> root ct" by auto
      with dr c' n show ?thesis by simp
    qed
  qed
  moreover have "distinct (map root (ct # cts))" using di roots l1 by auto
  ultimately show ?thesis using e np by (simp add: copies_ok_def)
qed

lemma copies_ok_skip:
  "pred (root t) \<Longrightarrow> copies_ok pred h h' ts cts \<Longrightarrow> copies_ok pred h h' (t # ts) cts"
  by (simp add: copies_ok_def)

lemma copies_ok_Nil: "copies_ok pred h h [] []"
  by (simp add: copies_ok_def)

lemma copy_ok_assemble:
  assumes a: "a < length h" and np: "\<not> pred a" and ok: "copies_ok pred h h1 ts cts"
    and cs: "cs = map root cts" and h2: "h2 = relink cs h1"
    and r: "r = (if length cs > 0
                 then (h2 ! a)\<lparr>FirstChild := Some (cs ! 0), LastChild := Some (cs ! (length cs - 1))\<rparr>
                 else (h2 ! a)\<lparr>FirstChild := None, LastChild := None\<rparr>)"
  shows "copy_ok pred h (h2 @ [r]) (Tree a ts) (Tree (length h2) cts)"
proof -
  from ok have e1: "heap_extends h h1" and pcs: "pruned_copies pred h h1 ts cts"
    and cn: "\<forall>n \<in> set (preorder_list cts). length h \<le> n \<and> n < length h1"
    and dr: "\<forall>c \<in> set cts. \<forall>n \<in> set (preorder_list (kids c)). n \<notin> set cs"
    and di: "distinct cs"
    by (simp_all add: copies_ok_def cs)
  have csr: "\<forall>c \<in> set cs. length h \<le> c \<and> c < length h1"
    using cn set_map_root_subset[of cts] unfolding cs by blast
  then have csl: "\<forall>c \<in> set cs. c < length h1" by blast
  have e2: "heap_extends h h2" unfolding h2 using di csr e1 by (rule heap_extends_relink)
  have l2: "length h2 = length h1" by (simp add: h2)
  let ?hf = "h2 @ [r]"
  have ef: "heap_extends h ?hf" using e2 heap_extends_append by (rule heap_extends_trans)
  have ha: "h2 ! a = h ! a" using e2 a by (simp add: heap_extends_def)
  have rr: "r = (h ! a)\<lparr>FirstChild := (if cts = [] then None else Some (root (hd cts))),
                       LastChild := (if cts = [] then None else Some (root (last cts)))\<rparr>"
  proof -
    have f: "cs ! 0 = root (hd cts)" if "cts \<noteq> []" using that by (cases cts) (simp_all add: cs)
    have l: "cs ! (length cs - 1) = root (last cts)" if "cts \<noteq> []"
      using that unfolding cs by (simp add: last_conv_nth)
    show ?thesis unfolding r ha using f l by (simp add: cs)
  qed
  have hfr: "?hf ! length h2 = r" by simp
  have hfo: "?hf ! n = h2 ! n" if "n < length h1" for n using that l2 by (simp add: nth_append)
  have sl: "siblings_linked ?hf None cs"
  proof -
    have "siblings_linked h2 None cs" unfolding h2 using di csl by (rule siblings_linked_relink)
    moreover have "\<forall>c \<in> set cs. ?hf ! c = h2 ! c" using csl hfo by blast
    ultimately show ?thesis using siblings_linked_cong[of cs ?hf h2 None] by blast
  qed
  have pcf: "pruned_copies pred h ?hf ts cts"
  proof (rule pruned_copies_target_roots[OF pcs])
    show "length h1 \<le> length ?hf" by (simp add: l2)
    show "\<forall>c \<in> set cts. eq_upto_sib (h1 ! root c) (?hf ! root c)
            \<and> (\<forall>n \<in> set (preorder_list (kids c)). ?hf ! n = h1 ! n)"
    proof (intro ballI conjI)
      fix c assume c: "c \<in> set cts"
      then obtain i where i: "i < length cs" "cs ! i = root c"
        unfolding cs by (metis in_set_conv_nth length_map nth_map)
      from c have rc: "root c < length h1" using csl cs by simp
      have "h2 ! root c = (h1 ! root c)\<lparr>PrevSibling := (if i = 0 then None else Some (cs ! (i - 1))),
                    NextSibling := (if i = length cs - 1 then None else Some (cs ! (i + 1)))\<rparr>"
        unfolding h2 using relink_at[OF di csl i(1)] i(2) by simp
      then show "eq_upto_sib (h1 ! root c) (?hf ! root c)"
        by (simp add: hfo[OF rc] eq_upto_sib_def)
      fix n assume n: "n \<in> set (preorder_list (kids c))"
      with dr c have "n \<notin> set cs" by blast
      then have "h2 ! n = h1 ! n" unfolding h2 using di csl by (intro relink_other)
      moreover have "set (preorder c) \<subseteq> set (preorder_list cts)" using c by (induction cts) auto
      with n cn have "n < length h1" by (auto simp: preorder_eq[of c])
      ultimately show "?hf ! n = h1 ! n" by (simp add: hfo)
    qed
  qed
  have sc: "shallow_copy (h ! a) r" unfolding rr shallow_copy_def by (cases "h ! a") simp
  have lh: "length h \<le> length h2" using e2 by (simp add: heap_extends_def)
  have "pruned_copy pred h ?hf (Tree a ts) (Tree (length h2) cts)"
    using np lh sc sl pcf by (simp add: rr cs)
  moreover have "\<forall>n \<in> set (preorder_list (kids (Tree (length h2) cts))). length h \<le> n \<and> n < root (Tree (length h2) cts)"
    using cn l2 by simp
  ultimately show ?thesis
    using ef by (simp add: copy_ok_def rr)
qed

lemma Prune_copy_aux:
  "(\<forall>h t. is_tree h t \<longrightarrow> fuel t \<le> k \<longrightarrow>
       (if pred (root t) then Prune k h (root t) pred = Some (h, None)
        else (\<exists>h' t'. Prune k h (root t) pred = Some (h', Some (root t'))
                \<and> copy_ok pred h h' t t')))
   \<and> (\<forall>h p ts acc. is_chain h p ts \<longrightarrow> fuel_list ts \<le> k \<longrightarrow>
       (\<exists>h' cts. Prune_loop k h p pred acc = Some (h', acc @ map root cts)
                \<and> copies_ok pred h h' ts cts))"
proof (induction k rule: less_induct)
  case (less k)
  then have IHt: "\<And>j h t. j < k \<Longrightarrow> is_tree h t \<Longrightarrow> fuel t \<le> j \<Longrightarrow>
       (if pred (root t) then Prune j h (root t) pred = Some (h, None)
        else (\<exists>h' t'. Prune j h (root t) pred = Some (h', Some (root t'))
                \<and> copy_ok pred h h' t t'))"
    and IHl: "\<And>j h p ts acc. j < k \<Longrightarrow> is_chain h p ts \<Longrightarrow> fuel_list ts \<le> j \<Longrightarrow>
       (\<exists>h' cts. Prune_loop j h p pred acc = Some (h', acc @ map root cts)
                \<and> copies_ok pred h h' ts cts)"
    by blast+
  show ?case
  proof (intro conjI allI impI)
    fix h t assume t: "is_tree h t" "fuel t \<le> k"
    obtain a ts where [simp]: "t = Tree a ts" by (cases t)
    define j where "j = k - 1"
    from t have k: "k = Suc j" and j: "j < k" "fuel_list ts \<le> j"
      by (simp_all add: j_def)
    from t have a: "a < length h" and ch: "is_chain h (FirstChild (h ! a)) ts" by simp_all
    show "if pred (root t) then Prune k h (root t) pred = Some (h, None)
        else (\<exists>h' t'. Prune k h (root t) pred = Some (h', Some (root t'))
                \<and> copy_ok pred h h' t t')"
    proof (cases "pred a")
      case True
      then show ?thesis using a by (simp add: k deref_def)
    next
      case False
      from IHl[OF j(1) ch j(2), of "[]"] obtain h1 cts
        where loop: "Prune_loop j h (FirstChild (h ! a)) pred [] = Some (h1, map root cts)"
          and ok: "copies_ok pred h h1 ts cts" by auto
      define cs where "cs = map root cts"
      define h2 where "h2 = relink cs h1"
      define r where "r = (if length cs > 0
                 then (h2 ! a)\<lparr>FirstChild := Some (cs ! 0), LastChild := Some (cs ! (length cs - 1))\<rparr>
                 else (h2 ! a)\<lparr>FirstChild := None, LastChild := None\<rparr>)"
      have "copy_ok pred h (h2 @ [r]) (Tree a ts) (Tree (length h2) cts)"
        using a False ok cs_def h2_def r_def by (rule copy_ok_assemble)
      moreover have "Prune k h a pred = Some (h2 @ [r], Some (length h2))"
        using a False loop by (simp add: k deref_def Let_def cs_def h2_def r_def)
      ultimately show ?thesis using False by (auto intro!: exI[of _ "Tree (length h2) cts"])
    qed
  next
    fix h p ts acc assume l: "is_chain h p ts" "fuel_list ts \<le> k"
    define j where "j = k - 1"
    from l have k: "k = Suc j" "j < k" by (cases ts; simp add: j_def)+
    show "\<exists>h' cts. Prune_loop k h p pred acc = Some (h', acc @ map root cts)
                \<and> copies_ok pred h h' ts cts"
    proof (cases ts)
      case Nil
      with l show ?thesis by (auto simp: k copies_ok_Nil intro!: exI[of _ "[]"])
    next
      case (Cons t ts')
      from l Cons k have p: "p = Some (root t)" and t: "is_tree h t" "fuel t \<le> j"
        and r: "is_chain h (NextSibling (h ! root t)) ts'" "fuel_list ts' \<le> j"
        by simp_all
      from t(1) have lt: "root t < length h" by (rule is_tree_root_less)
      show ?thesis
      proof (cases "pred (root t)")
        case True
        with IHt[OF k(2) t] have pr: "Prune j h (root t) pred = Some (h, None)" by simp
        from IHl[OF k(2) r, of acc] obtain h' cts
          where "Prune_loop j h (NextSibling (h ! root t)) pred acc = Some (h', acc @ map root cts)"
            and "copies_ok pred h h' ts' cts" by auto
        then show ?thesis using pr lt True
          by (auto simp: Cons p k deref_def copies_ok_skip)
      next
        case False
        with IHt[OF k(2) t] obtain h1 ct
          where pr: "Prune j h (root t) pred = Some (h1, Some (root ct))"
            and c: "copy_ok pred h h1 t ct" by auto
        from c have e1: "heap_extends h h1" by (simp add: copy_ok_def)
        with lt have lt1: "root t < length h1" and same: "h1 ! root t = h ! root t"
          by (simp_all add: heap_extends_def)
        from r(1) e1 have r1: "is_chain h1 (NextSibling (h ! root t)) ts'" by (rule is_chain_extends)
        from IHl[OF k(2) r1 r(2), of "acc @ [root ct]"] obtain h' cts
          where lp: "Prune_loop j h1 (NextSibling (h ! root t)) pred (acc @ [root ct])
                   = Some (h', (acc @ [root ct]) @ map root cts)"
            and cs: "copies_ok pred h1 h' ts' cts" by auto
        have "copies_ok pred h h' (t # ts') (ct # cts)"
          using t(1) False c preorder_list_less[OF r(1)] cs by (rule copies_ok_Cons)
        moreover have "Prune_loop k h p pred acc = Some (h', acc @ map root (ct # cts))"
          using pr lp lt1 same by (simp add: p k deref_def)
        ultimately show ?thesis unfolding Cons by blast
      qed
    qed
  qed
qed

lemma is_chain_siblings_linked:
  "siblings_linked h prev (map root cs) \<Longrightarrow> \<forall>c \<in> set cs. is_tree h c \<Longrightarrow>
   is_chain h (if cs = [] then None else Some (root (hd cs))) cs"
proof (induction cs arbitrary: prev)
  case Nil
  then show ?case by simp
next
  case (Cons c cs)
  from Cons.prems(1) have n: "NextSibling (h ! root c) = (if cs = [] then None else Some (root (hd cs)))"
    and r: "siblings_linked h (Some (root c)) (map root cs)"
    by (cases cs; simp)+
  from Cons.IH[OF r] Cons.prems(2) n show ?case by simp
qed

lemma pruned_copy_is_tree:
  "pruned_copy pred h h' t c \<Longrightarrow> is_tree h' c"
  and pruned_copies_are_trees:
  "pruned_copies pred h h' ts cs \<Longrightarrow> \<forall>c \<in> set cs. is_tree h' c"
proof (induction pred h h' t c and pred h h' ts cs rule: pruned_copy_pruned_copies.induct)
  case (1 pred h h' a ts c cs)
  then have "\<forall>x \<in> set cs. is_tree h' x" by simp
  with 1 show ?case using is_chain_siblings_linked[of h' None cs] by simp
next
  case (2 pred h h' cs)
  then show ?case by simp
next
  case (3 pred h h' t ts cs)
  then show ?case by (cases cs) (auto split: if_splits)
qed

lemma Prune_copy:
  assumes "is_tree h t" and "fuel t \<le> k"
  shows "if pred (root t) then Prune k h (root t) pred = Some (h, None)
        else (\<exists>h' t'. Prune k h (root t) pred = Some (h', Some (root t'))
                \<and> copy_ok pred h h' t t')"
  using Prune_copy_aux[of k pred] assms by blast

section \<open>Lemmas: the buffered writer and the beginning-of-line flag\<close>

lemma Flush_written:
  "Flush W b = (b', e) \<Longrightarrow> bufio_wr b' @ bufio_buf b' = bufio_wr b @ bufio_buf b"
  by (auto simp: Flush_def io_Write_def Let_def min_def split: option.splits if_splits prod.splits)

lemma Flush_err:
  "Flush W b = (b', Some e) \<Longrightarrow> bufio_err b' = Some e"
  by (auto simp: Flush_def io_Write_def Let_def split: option.splits if_splits prod.splits)

lemma Flush_ok:
  "Flush W b = (b', None) \<Longrightarrow>
     bufio_err b = None \<and> bufio_err b' = None \<and> bufio_buf b' = []
     \<and> bufio_wr b' = bufio_wr b @ bufio_buf b"
  by (auto simp: Flush_def io_Write_def Let_def min_def
      split: option.splits if_splits prod.splits)

lemma WriteByte_written:
  "WriteByte W b c = (b', e) \<Longrightarrow>
     bufio_wr b' @ bufio_buf b' = bufio_wr b @ bufio_buf b @ (if e = None then [c] else [])"
proof (cases "bufio_err b")
  case (Some x)
  assume "WriteByte W b c = (b', e)"
  with Some have "b' = b" "e = Some x" by (simp_all add: WriteByte_def)
  then show ?thesis by simp
next
  case None
  assume run: "WriteByte W b c = (b', e)"
  show ?thesis
  proof (cases "defaultBufSize \<le> length (bufio_buf b)")
    case False
    with None run show ?thesis by (auto simp: WriteByte_def)
  next
    case True
    obtain f fe where f: "Flush W b = (f, fe)" by (cases "Flush W b")
    note fw = Flush_written[OF f]
    show ?thesis
    proof (cases fe)
      case None' : None
      with None True run f fw show ?thesis by (auto simp: WriteByte_def)
    next
      case (Some x)
      with f have fx: "bufio_err f = Some x" by (simp add: Flush_err)
      from None True run f Some have "b' = f" "e = bufio_err f" by (auto simp: WriteByte_def)
      with fx fw show ?thesis by simp
    qed
  qed
qed

lemma byte_step_bol_inv: "byte_step (bol_inv w0) W"
  unfolding byte_step_def
proof (intro allI impI)
  fix w b bw e assume inv: "bol_inv w0 w" and run: "WriteByte W (bolw_w w) b = (bw, e)"
  from inv obtain emitted where em: "written w = w0 @ emitted"
    and bl: "bol w \<longleftrightarrow> (emitted = [] \<or> last emitted = CHR 0x0A)"
    unfolding bol_inv_def by blast
  note ww = WriteByte_written[OF run]
  show "case e of Some _ \<Rightarrow> bol_inv w0 (w\<lparr>bolw_w := bw\<rparr>)
         | None \<Rightarrow> bol_inv w0 (w\<lparr>bolw_w := bw, bol := (b = CHR 0x0A)\<rparr>)"
  proof (cases e)
    case None
    with ww em have "written (w\<lparr>bolw_w := bw, bol := (b = CHR 0x0A)\<rparr>) = w0 @ (emitted @ [b])"
      by (simp add: written_def)
    then have "bol_inv w0 (w\<lparr>bolw_w := bw, bol := (b = CHR 0x0A)\<rparr>)"
      unfolding bol_inv_def by (intro exI[of _ "emitted @ [b]"]) simp
    then show ?thesis by (simp add: None)
  next
    case (Some x)
    with ww em have "written (w\<lparr>bolw_w := bw\<rparr>) = w0 @ emitted"
      by (simp add: written_def)
    with bl have "bol_inv w0 (w\<lparr>bolw_w := bw\<rparr>)"
      unfolding bol_inv_def by (intro exI[of _ emitted]) simp
    then show ?thesis by (simp add: Some)
  qed
qed

lemma WriteByte_accept_all:
  "bufio_err b = None \<Longrightarrow> WriteByte accept_all b c = (b', e) \<Longrightarrow>
     e = None \<and> bufio_err b' = None"
  by (auto simp: WriteByte_def Flush_def io_Write_def accept_all_def Let_def
      split: if_splits option.splits prod.splits)

lemma byte_step_accept_all: "byte_step no_err accept_all"
  unfolding byte_step_def no_err_def
  by (auto dest: WriteByte_accept_all split: option.splits)

lemma bolwriter_Write_pres:
  "byte_step I W \<Longrightarrow> bolwriter_Write W p w = (w', e) \<Longrightarrow> I w \<Longrightarrow> I w'"
proof (induction p arbitrary: w)
  case Nil
  then show ?case by simp
next
  case (Cons b p)
  obtain bw be where wb: "WriteByte W (bolw_w w) b = (bw, be)"
    by (cases "WriteByte W (bolw_w w) b")
  from Cons.prems(1,3) wb
  have st: "case be of Some _ \<Rightarrow> I (w\<lparr>bolw_w := bw\<rparr>)
         | None \<Rightarrow> I (w\<lparr>bolw_w := bw, bol := (b = CHR 0x0A)\<rparr>)"
    unfolding byte_step_def by blast
  show ?case
  proof (cases be)
    case None
    with Cons.prems(2) wb
    have "bolwriter_Write W p (w\<lparr>bolw_w := bw, bol := (b = CHR 0x0A)\<rparr>) = (w', e)" by simp
    moreover from st None have "I (w\<lparr>bolw_w := bw, bol := (b = CHR 0x0A)\<rparr>)" by simp
    ultimately show ?thesis using Cons.IH[OF Cons.prems(1)] by blast
  next
    case (Some x)
    with Cons.prems(2) wb st show ?thesis by auto
  qed
qed

lemma pres_Fprint: "byte_step I W \<Longrightarrow> pres I (Fprint W s)"
  by (auto simp: pres_def Fprint_def dest: bolwriter_Write_pres)

lemma pres_Render_to: "byte_step I W \<Longrightarrow> pres I (Render_to W R h n)"
  by (auto simp: pres_def Render_to_def split: sum.splits dest: bolwriter_Write_pres)

lemma pres_ensureNewline: "byte_step I W \<Longrightarrow> pres I (ensureNewline W)"
  unfolding pres_def byte_step_def ensureNewline_def
  by (fastforce split: if_splits option.splits prod.splits)

lemma pres_skip [simp]: "pres I skip"
  by (simp add: pres_def skip_def)

lemma pres_return_err [simp]: "pres I (return_err e)"
  by (simp add: pres_def return_err_def)

lemma pres_None [simp]: "pres I (\<lambda>w. None)"
  by (simp add: pres_def)

lemma pres_if_bol [simp]: "pres I a \<Longrightarrow> pres I (if_bol a)"
  by (auto simp: pres_def if_bol_def split: if_splits)

declare do_all.simps [simp del]

lemma pres_do_all: "(\<And>a. a \<in> set as \<Longrightarrow> pres I a) \<Longrightarrow> pres I (do_all as)"
proof (induction as)
  case Nil
  then show ?case by (simp add: pres_def do_all.simps)
next
  case (Cons a as)
  then have a: "pres I a" and r: "pres I (do_all as)" by simp_all
  show ?case unfolding pres_def
  proof (intro allI impI)
    fix w w' e assume run: "do_all (a # as) w = Some (w', e)" and inv: "I w"
    then obtain w1 e1 where 1: "a w = Some (w1, e1)" by (auto simp: do_all.simps split: option.splits)
    with a inv have i1: "I w1" by (auto simp: pres_def)
    show "I w'"
    proof (cases e1)
      case None
      with run 1 have "do_all as w1 = Some (w', e)" by (simp add: do_all.simps)
      with r i1 show ?thesis by (auto simp: pres_def)
    next
      case (Some err)
      with run 1 i1 show ?thesis by (simp add: do_all.simps)
    qed
  qed
qed

lemma pres_write_attrs: "byte_step I W \<Longrightarrow> pres I (write_attrs W E as)"
  by (induction as) (auto intro!: pres_do_all simp: pres_Fprint)

lemma pres_indent:
  "byte_step I W \<Longrightarrow> pres I (indent k W R E h n level)"
  "byte_step I W \<Longrightarrow> pres I (indent_document_children k W R E h p level)"
  "byte_step I W \<Longrightarrow> pres I (indent_element_children k W R E h n p level)"
proof (induction k W R E h n level and k W R E h p level and k W R E h n p level
    rule: indent_indent_document_children_indent_element_children.induct)
  case (2 k W Render EscapeString h n level)
  note bs = "2.prems"
  note P = pres_Fprint[OF bs] pres_Render_to[OF bs] pres_ensureNewline[OF bs]
    pres_write_attrs[OF bs]
  show ?case
  proof (cases "deref h n")
    case None
    then show ?thesis by simp
  next
    case (Some nd)
    show ?thesis
    proof (cases "Repeat ''  '' level")
      case (Inl p)
      with Some show ?thesis by simp
    next
      case (Inr prefix)
      show ?thesis
        using 2(1)[OF Some Inr _ bs] 2(2)[OF Some Inr _ _ _ bs] P
        by (cases "Type nd") (auto simp: Some Inr Let_def intro!: pres_do_all)
    qed
  qed
next
  case (5 k W Render EscapeString h child level)
  then show ?case by (auto split: option.splits intro!: pres_do_all)
next
  case (8 k W Render EscapeString h n child level)
  then show ?case
    by (auto split: option.splits intro!: pres_do_all simp: pres_Fprint pres_Render_to)
qed simp_all


lemma indent_bol_inv:
  assumes "indent k W R E h n level \<lparr>bolw_w = NewWriter w0, bol = True\<rparr> = Some (s, e)"
  shows "bol_inv w0 s"
proof -
  have "bol_inv w0 \<lparr>bolw_w = NewWriter w0, bol = True\<rparr>"
    by (simp add: bol_inv_def written_def NewWriter_def)
  with pres_indent(1)[OF byte_step_bol_inv, of w0 k W R E h n level] assms show ?thesis
    unfolding pres_def by blast
qed

lemma indent_accept_all_no_err:
  assumes "indent k accept_all R E h n level \<lparr>bolw_w = NewWriter w0, bol = True\<rparr> = Some (s, e)"
  shows "bufio_err (bolw_w s) = None"
proof -
  have "no_err \<lparr>bolw_w = NewWriter w0, bol = True\<rparr>" by (simp add: no_err_def NewWriter_def)
  with pres_indent(1)[OF byte_step_accept_all, of k R E h n level] assms have "no_err s"
    unfolding pres_def by blast
  then show ?thesis by (simp add: no_err_def)
qed

lemma Flush_accept_all:
  "bufio_err b = None \<Longrightarrow> bufio_wr (fst (Flush accept_all b)) = bufio_wr b @ bufio_buf b"
  by (simp add: Flush_def io_Write_def accept_all_def Let_def)

lemma Indentln_accept_all:
  assumes "indent k accept_all R E h n level \<lparr>bolw_w = NewWriter w0, bol = True\<rparr> = Some (s, None)"
  shows "\<exists>emitted. written s = w0 @ emitted
     \<and> (bol s \<longleftrightarrow> (emitted = [] \<or> last emitted = CHR 0x0A))
     \<and> Indent k accept_all R E h w0 n level = Some (w0 @ emitted, None)
     \<and> Indentln k accept_all R E h w0 n level
          = Some (w0 @ emitted @ (if bol s then [] else [CHR 0x0A]), None)"
proof -
  from indent_bol_inv[OF assms] obtain emitted where em: "written s = w0 @ emitted"
    and bl: "bol s \<longleftrightarrow> (emitted = [] \<or> last emitted = CHR 0x0A)"
    unfolding bol_inv_def by blast
  note ne = indent_accept_all_no_err[OF assms]
  have fl: "bufio_wr (fst (Flush accept_all (bolw_w s))) = w0 @ emitted"
    using Flush_accept_all[OF ne] em by (simp add: written_def)
  have 1: "Indent k accept_all R E h w0 n level = Some (w0 @ emitted, None)"
    using assms fl by (simp add: Indent_def indentHelper_def deferred_Flush_def)
  have 2: "Indentln k accept_all R E h w0 n level
          = Some (w0 @ emitted @ (if bol s then [] else [CHR 0x0A]), None)"
  proof (cases "bol s")
    case True
    with assms fl show ?thesis by (simp add: Indentln_def indentHelper_def deferred_Flush_def)
  next
    case False
    obtain bw' e where wb: "WriteByte accept_all (bolw_w s) (CHR 0x0A) = (bw', e)"
      by (cases "WriteByte accept_all (bolw_w s) (CHR 0x0A)")
    from WriteByte_accept_all[OF ne wb] have e: "e = None" and ne': "bufio_err bw' = None"
      by simp_all
    from WriteByte_written[OF wb] e em
    have "bufio_wr bw' @ bufio_buf bw' = w0 @ emitted @ [CHR 0x0A]" by (simp add: written_def)
    with Flush_accept_all[OF ne']
    have "bufio_wr (fst (Flush accept_all bw')) = w0 @ emitted @ [CHR 0x0A]" by simp
    with assms False wb e show ?thesis
      by (simp add: Indentln_def indentHelper_def deferred_Flush_def)
  qed
  from em bl 1 2 show ?thesis by blast
qed

section \<open>Lemmas: the renderer returns on every tree\<close>

lemma returns_Fprint [simp]: "returns (Fprint WB s)"
  by (simp add: returns_def Fprint_def)

lemma returns_Render_to [simp]: "returns (Render_to WB R h n)"
  by (simp add: returns_def Render_to_def split: sum.splits)

lemma returns_ensureNewline [simp]: "returns (ensureNewline WB)"
  by (simp add: returns_def ensureNewline_def split: option.splits prod.splits)

lemma returns_skip [simp]: "returns skip"
  by (simp add: returns_def skip_def)

lemma returns_return_err [simp]: "returns (return_err e)"
  by (simp add: returns_def return_err_def)

lemma returns_if_bol [simp]: "returns a \<Longrightarrow> returns (if_bol a)"
  by (simp add: returns_def if_bol_def)

lemma returns_do_all: "(\<And>a. a \<in> set as \<Longrightarrow> returns a) \<Longrightarrow> returns (do_all as)"
  unfolding returns_def
  by (induction as) (auto simp: do_all.simps split: option.splits)

lemma returns_write_attrs [simp]: "returns (write_attrs WB E as)"
  by (induction as) (auto intro!: returns_do_all)

lemma indent_returns_aux:
  "(\<forall>t level. is_tree h t \<longrightarrow> fuel t \<le> k \<longrightarrow> returns (indent k WB R E h (root t) level))
   \<and> (\<forall>ts p level. is_chain h p ts \<longrightarrow> fuel_list ts \<le> k \<longrightarrow>
         returns (indent_document_children k WB R E h p level)
         \<and> (\<forall>n. returns (indent_element_children k WB R E h n p level)))"
proof (induction k rule: less_induct)
  case (less k)
  then have IHt: "\<And>j t level. j < k \<Longrightarrow> is_tree h t \<Longrightarrow> fuel t \<le> j \<Longrightarrow>
       returns (indent j WB R E h (root t) level)"
    and IHd: "\<And>j ts p level. j < k \<Longrightarrow> is_chain h p ts \<Longrightarrow> fuel_list ts \<le> j \<Longrightarrow>
       returns (indent_document_children j WB R E h p level)"
    and IHe: "\<And>j ts p level n. j < k \<Longrightarrow> is_chain h p ts \<Longrightarrow> fuel_list ts \<le> j \<Longrightarrow>
       returns (indent_element_children j WB R E h n p level)"
    by blast+
  show ?case
  proof (intro conjI allI impI)
    fix t level assume t: "is_tree h t" "fuel t \<le> k"
    obtain a ts where [simp]: "t = Tree a ts" by (cases t)
    define j where "j = k - 1"
    from t have k: "k = Suc j" and j: "j < k" "fuel_list ts \<le> j"
      by (simp_all add: j_def)
    from t have a: "a < length h" and ch: "is_chain h (FirstChild (h ! a)) ts" by simp_all
    note D = IHd[OF j(1) ch j(2)] and E = IHe[OF j(1) ch j(2)]
    show "returns (indent k WB R E h (root t) level)"
    proof (cases "Repeat ''  '' level")
      case (Inl p)
      then show ?thesis using a by (simp add: k deref_def)
    next
      case (Inr prefix)
      then show ?thesis using a D E
        by (cases "Type (h ! a)") (auto simp: k deref_def Let_def intro!: returns_do_all)
    qed
  next
    fix ts p level assume l: "is_chain h p ts" "fuel_list ts \<le> k"
    define j where "j = k - 1"
    from l have k: "k = Suc j" "j < k" by (cases ts; simp add: j_def)+
    show "returns (indent_document_children k WB R E h p level)"
    proof (cases ts)
      case Nil
      with l show ?thesis by (simp add: k)
    next
      case (Cons t ts')
      from l Cons k have p: "p = Some (root t)" and t: "is_tree h t" "fuel t \<le> j"
        and r: "is_chain h (NextSibling (h ! root t)) ts'" "fuel_list ts' \<le> j"
        by simp_all
      from t(1) have lt: "root t < length h" by (rule is_tree_root_less)
      show ?thesis
        using IHt[OF k(2) t] IHd[OF k(2) r] lt
        by (auto simp: Cons p k deref_def intro!: returns_do_all)
    qed
    show "returns (indent_element_children k WB R E h n p level)" for n
    proof (cases ts)
      case Nil
      with l show ?thesis by (simp add: k)
    next
      case (Cons t ts')
      from l Cons k have p: "p = Some (root t)" and t: "is_tree h t" "fuel t \<le> j"
        and r: "is_chain h (NextSibling (h ! root t)) ts'" "fuel_list ts' \<le> j"
        by simp_all
      from t(1) have lt: "root t < length h" by (rule is_tree_root_less)
      show ?thesis
        using IHt[OF k(2) t] IHe[OF k(2) r] lt
        by (auto simp: Cons p k deref_def intro!: returns_do_all)
    qed
  qed
qed

lemma Indent_returns:
  assumes "is_tree h t" and "fuel t \<le> k"
  shows "\<exists>bytes e. Indent k WB R E h w (root t) level = Some (bytes, e)"
    and "\<exists>bytes e. Indentln k WB R E h w (root t) level = Some (bytes, e)"
proof -
  from indent_returns_aux[of h k WB R E] assms
  have "returns (indent k WB R E h (root t) level)" by blast
  then obtain s e
    where "indent k WB R E h (root t) level \<lparr>bolw_w = NewWriter w, bol = True\<rparr> = Some (s, e)"
    unfolding returns_def by (metis not_None_eq surj_pair)
  then show "\<exists>bytes e. Indent k WB R E h w (root t) level = Some (bytes, e)"
    and "\<exists>bytes e. Indentln k WB R E h w (root t) level = Some (bytes, e)"
    by (auto simp: Indent_def Indentln_def indentHelper_def deferred_Flush_def Let_def
        split: option.splits prod.splits)
qed

section \<open>Lemmas: the example documents\<close>

lemma div_x_br_y_is_tree: "is_tree div_x_br_y div_x_br_y_tree"
  by (simp add: div_x_br_y_def div_x_br_y_tree_def new_node_def)

lemma div_x_br_y_fuel: "fuel div_x_br_y_tree \<le> 40"
  by (simp add: div_x_br_y_tree_def)

lemma div_x_br_y_root: "root div_x_br_y_tree = 0"
  by (simp add: div_x_br_y_tree_def)

lemma div_x_br_y_visit: "visit div_x_br_y div_x_br_y_tree = [0, 1, 2, 3, 4, 5, 6, 7]"
  by (simp add: div_x_br_y_def div_x_br_y_tree_def new_node_def)

lemma div_x_br_y_walk_order: "walk_order div_x_br_y div_x_br_y_tree = [0, 1, 2, 3, 4, 6]"
  by (simp add: div_x_br_y_def div_x_br_y_tree_def new_node_def)

lemma div_x_br_y_text_leaves: "text_leaves div_x_br_y div_x_br_y_tree"
  by (simp add: div_x_br_y_def div_x_br_y_tree_def new_node_def)

lemma div_x_br_y_preorder: "preorder div_x_br_y_tree = [0, 1, 2, 3, 4, 5, 6, 7]"
  by (simp add: div_x_br_y_tree_def)

lemma div_x_br_y_text_matches:
  "filter (is_text div_x_br_y) [0, 1, 2, 3, 4, 5, 6, 7] = [5, 7]"
  by (simp add: is_text_def div_x_br_y_def new_node_def)

lemma div_x_br_y_pieces:
  "text_pieces U div_x_br_y div_x_br_y_tree = [U ''x'', [CHR 0x0A], U ''y'']"
  by (simp add: div_x_br_y_def div_x_br_y_tree_def new_node_def)

lemma text_in_text_is_tree: "is_tree text_in_text (Tree 0 [Tree 1 []])"
  by (simp add: text_in_text_def new_node_def)

section \<open>Walk\<close>

text \<open>
  C1, as the specification states it: \<open>Walk\<close> yields every node it visits, text nodes
  included, and a text root in particular; that is, it yields \<open>visit h t\<close>. This fails on
  a text node alone: \<open>walk\<close> returns before it yields, so \<open>Walk\<close> yields nothing, while the
  stated rule yields the node.
\<close>

theorem Walk_text_root_counterexample:
  "collect_seq (Walk 2 text_alone 0) = Some []
   \<and> collect_seq (Walk 2 text_alone 0) \<noteq> Some (visit text_alone (Tree 0 []))"
  by (simp add: collect_seq_def Walk_def numeral_2_eq_2 text_alone_def new_node_def deref_def)

text \<open>
  C1, amended: for every tree, \<open>Walk\<close> returns and produces the preorder sequence of the
  rule \<open>walk_order\<close>: a text node yields nothing and is not entered (so a text root
  yields the empty sequence); any other node is yielded, and then its children are
  walked left to right. These are the nodes of the stated sequence that are not text
  nodes, in the same order. A consumer that stops early has been fed a prefix of this
  sequence, up to the node at which it stopped.
\<close>

theorem Walk_preorder_skipping_text:
  assumes "is_tree h t" and "fuel t \<le> k"
  shows "collect_seq (Walk k h (root t)) = Some (walk_order h t)
     \<and> (\<forall>yield s. walk k h (root t) yield s = Some (feed yield (walk_order h t) s))
     \<and> walk_order h t = filter (not_text h) (visit h t)"
  using Walk_collect[OF assms] walk_feed[OF assms] walk_order_filter(1) by blast

theorem Walk_preorder_skipping_text_witness:
  "is_tree div_x_br_y div_x_br_y_tree \<and> fuel div_x_br_y_tree \<le> 40
   \<and> collect_seq (Walk 40 div_x_br_y 0) = Some [0, 1, 2, 3, 4, 6]"
proof -
  have "collect_seq (Walk 40 div_x_br_y (root div_x_br_y_tree))
          = Some (walk_order div_x_br_y div_x_br_y_tree)"
    using Walk_preorder_skipping_text[OF div_x_br_y_is_tree div_x_br_y_fuel] by blast
  then show ?thesis
    using div_x_br_y_is_tree div_x_br_y_fuel
    by (simp only: div_x_br_y_root div_x_br_y_walk_order simp_thms)
qed

text \<open>
  C9: for every tree whose text nodes have no children, \<open>Walk\<close> returns, and the number
  of nodes it yields is the number of nodes of the tree that are not text nodes (counted
  along the preorder listing, which is the number of distinct such nodes when no node
  occurs twice).
\<close>

theorem Walk_count_non_text:
  assumes "is_tree h t" and "text_leaves h t" and "fuel t \<le> k"
  shows "\<exists>ys. collect_seq (Walk k h (root t)) = Some ys
     \<and> length ys = length (filter (not_text h) (preorder t))
     \<and> (distinct (preorder t) \<longrightarrow>
          length ys = card {a \<in> set (preorder t). Type (h ! a) \<noteq> TextNode})"
proof -
  let ?ys = "filter (not_text h) (preorder t)"
  have "collect_seq (Walk k h (root t)) = Some ?ys"
    using Walk_collect[OF assms(1,3)] assms(2) by (simp add: walk_order_filter visit_preorder)
  moreover have "length ?ys = card {a \<in> set (preorder t). Type (h ! a) \<noteq> TextNode}"
    if "distinct (preorder t)"
  proof -
    from that have "distinct ?ys" by simp
    then have "length ?ys = card (set ?ys)" by (rule distinct_card[symmetric])
    also have "set ?ys = {a \<in> set (preorder t). Type (h ! a) \<noteq> TextNode}"
      by (auto simp: not_text_def)
    finally show ?thesis .
  qed
  ultimately show ?thesis by blast
qed

theorem Walk_count_non_text_witness:
  "is_tree div_x_br_y div_x_br_y_tree \<and> text_leaves div_x_br_y div_x_br_y_tree
   \<and> fuel div_x_br_y_tree \<le> 40
   \<and> (\<exists>ys. collect_seq (Walk 40 div_x_br_y 0) = Some ys \<and> length ys = 6)"
proof -
  have "\<exists>ys. collect_seq (Walk 40 div_x_br_y (root div_x_br_y_tree)) = Some ys
     \<and> length ys = length (filter (not_text div_x_br_y) (preorder div_x_br_y_tree))"
    using Walk_count_non_text[OF div_x_br_y_is_tree div_x_br_y_text_leaves div_x_br_y_fuel]
    by blast
  moreover have "length (filter (not_text div_x_br_y) [0, 1, 2, 3, 4, 5, 6, 7]) = 6"
    by (simp add: not_text_def div_x_br_y_def new_node_def)
  ultimately show ?thesis
    using div_x_br_y_is_tree div_x_br_y_fuel div_x_br_y_text_leaves
    by (simp only: div_x_br_y_root div_x_br_y_preorder simp_thms)
qed

section \<open>Find\<close>

text \<open>
  C3: for every tree and predicate, \<open>Find\<close> returns, and what it returns is the first node
  that satisfies the predicate in the order \<open>visit\<close> (a node, then its children left to
  right, the children of a text node left out), or nil when there is none. So the root
  is tested first; nil is returned when no visited node satisfies the predicate; no
  node before the returned one satisfies it; on a text root the answer depends on the
  root alone, whatever children it has. On a tree whose text nodes have no children the
  order is the preorder of all nodes.
\<close>

theorem Find_first_match:
  assumes "is_tree h t" and "fuel t \<le> k"
  shows "Find k h (root t) pred = Some (find pred (visit h t))
     \<and> (pred (root t) \<longrightarrow> Find k h (root t) pred = Some (Some (root t)))
     \<and> ((\<forall>n \<in> set (visit h t). \<not> pred n) \<longrightarrow> Find k h (root t) pred = Some None)
     \<and> (\<forall>n. Find k h (root t) pred = Some (Some n) \<longrightarrow>
           pred n \<and> (\<exists>i < length (visit h t). visit h t ! i = n
                      \<and> (\<forall>j < i. \<not> pred (visit h t ! j))))
     \<and> (Type (h ! root t) = TextNode \<longrightarrow>
           Find k h (root t) pred = Some (if pred (root t) then Some (root t) else None))
     \<and> (text_leaves h t \<longrightarrow> visit h t = preorder t)"
proof -
  note F = Find_visit[OF assms, of pred]
  have 1: "pred (root t) \<longrightarrow> Find k h (root t) pred = Some (Some (root t))"
    unfolding F by (cases t) simp
  have 2: "(\<forall>n \<in> set (visit h t). \<not> pred n) \<longrightarrow> Find k h (root t) pred = Some None"
    unfolding F by (simp add: find_None_iff)
  have 3: "\<forall>n. Find k h (root t) pred = Some (Some n) \<longrightarrow>
           pred n \<and> (\<exists>i < length (visit h t). visit h t ! i = n
                      \<and> (\<forall>j < i. \<not> pred (visit h t ! j)))"
    unfolding F by (auto simp: find_Some_iff)
  have 4: "Type (h ! root t) = TextNode \<longrightarrow>
           Find k h (root t) pred = Some (if pred (root t) then Some (root t) else None)"
    unfolding F by (cases t) simp
  have 5: "text_leaves h t \<longrightarrow> visit h t = preorder t" by (simp add: visit_preorder)
  from F 1 2 3 4 5 show ?thesis by blast
qed

theorem Find_first_match_witness:
  "is_tree div_x_br_y div_x_br_y_tree \<and> fuel div_x_br_y_tree \<le> 40
   \<and> text_leaves div_x_br_y div_x_br_y_tree
   \<and> visit div_x_br_y div_x_br_y_tree = [0, 1, 2, 3, 4, 5, 6, 7]
   \<and> Find 40 div_x_br_y 0 (is_text div_x_br_y) = Some (Some 5)
   \<and> Find 40 div_x_br_y 0 (has_atom div_x_br_y atom_Table) = Some None"
proof -
  have "Find 40 div_x_br_y (root div_x_br_y_tree) (is_text div_x_br_y)
          = Some (find (is_text div_x_br_y) (visit div_x_br_y div_x_br_y_tree))"
    using Find_first_match[OF div_x_br_y_is_tree div_x_br_y_fuel] by blast
  moreover have "find (is_text div_x_br_y) [0, 1, 2, 3, 4, 5, 6, 7] = Some 5"
    by (simp add: is_text_def div_x_br_y_def new_node_def)
  moreover have "Find 40 div_x_br_y (root div_x_br_y_tree) (has_atom div_x_br_y atom_Table)
          = Some (find (has_atom div_x_br_y atom_Table) (visit div_x_br_y div_x_br_y_tree))"
    using Find_first_match[OF div_x_br_y_is_tree div_x_br_y_fuel] by blast
  moreover have "find (has_atom div_x_br_y atom_Table) [0, 1, 2, 3, 4, 5, 6, 7] = None"
    by (simp add: has_atom_def div_x_br_y_def new_node_def)
  ultimately show ?thesis
    using div_x_br_y_is_tree div_x_br_y_fuel div_x_br_y_text_leaves
    by (simp only: div_x_br_y_root div_x_br_y_visit simp_thms)
qed

section \<open>FindAll\<close>

text \<open>
  C4 fails on the code: on a \<open>div\<close> element whose child is a \<open>div\<close> element, with the
  predicate "is a \<open>div\<close> element", \<open>FindAll\<close> yields the outer element and then its child.
  After a node has matched and has been yielded, \<open>findAll\<close> still goes on to
  \<open>findAllChildren\<close> of that node.
\<close>

theorem FindAll_descends_into_match:
  "has_atom div_in_div atom_Div 0 \<and> FirstChild (div_in_div ! 0) = Some 1
   \<and> collect_seq (FindAll 6 div_in_div 0 (has_atom div_in_div atom_Div)) = Some [0, 1]"
  by (simp add: collect_seq_def FindAll_def eval_nat_numeral div_in_div_def new_node_def
      deref_def has_atom_def append_yield_def)

text \<open>
  C10: for every tree and predicate, \<open>FindAll\<close> returns and yields exactly the visited
  nodes that satisfy the predicate, in order: the predicate is tested on every visited
  node, whatever its kind, and a text node that satisfies it is yielded (the children of
  a text node are not visited). \<open>Walk\<close>, on the same tree, yields no text node. And there
  is a tree with a matching text node that \<open>FindAll\<close> yields.
\<close>

theorem FindAll_yields_matching_text:
  assumes "is_tree h t" and "fuel t \<le> k"
  shows "collect_seq (FindAll k h (root t) pred) = Some (filter pred (visit h t))
     \<and> (\<forall>a \<in> set (visit h t). Type (h ! a) = TextNode \<and> pred a \<longrightarrow>
          (\<exists>ys. collect_seq (FindAll k h (root t) pred) = Some ys \<and> a \<in> set ys))
     \<and> (\<exists>ys. collect_seq (Walk k h (root t)) = Some ys
          \<and> (\<forall>a \<in> set ys. Type (h ! a) \<noteq> TextNode))
     \<and> (\<exists>h' t' k' p a. is_tree h' t' \<and> fuel t' \<le> k' \<and> a \<in> set (preorder t')
          \<and> Type (h' ! a) = TextNode \<and> p a
          \<and> (\<exists>ys. collect_seq (FindAll k' h' (root t') p) = Some ys \<and> a \<in> set ys))"
proof -
  note F = FindAll_collect[OF assms, of pred]
  have 2: "\<forall>a \<in> set (visit h t). Type (h ! a) = TextNode \<and> pred a \<longrightarrow>
          (\<exists>ys. collect_seq (FindAll k h (root t) pred) = Some ys \<and> a \<in> set ys)"
    unfolding F by simp
  have 3: "\<exists>ys. collect_seq (Walk k h (root t)) = Some ys
          \<and> (\<forall>a \<in> set ys. Type (h ! a) \<noteq> TextNode)"
    unfolding Walk_collect[OF assms] by (simp add: walk_order_filter not_text_def)
  have "collect_seq (FindAll 40 div_x_br_y (root div_x_br_y_tree) (is_text div_x_br_y))
          = Some [5, 7]"
    unfolding FindAll_collect[OF div_x_br_y_is_tree div_x_br_y_fuel]
    by (simp only: div_x_br_y_visit div_x_br_y_text_matches)
  moreover have "5 \<in> set (preorder div_x_br_y_tree)" by (simp add: div_x_br_y_preorder)
  moreover have "Type (div_x_br_y ! 5) = TextNode" "is_text div_x_br_y 5"
    by (simp_all add: is_text_def div_x_br_y_def new_node_def)
  ultimately have 4: "\<exists>h' t' k' p a. is_tree h' t' \<and> fuel t' \<le> k' \<and> a \<in> set (preorder t')
          \<and> Type (h' ! a) = TextNode \<and> p a
          \<and> (\<exists>ys. collect_seq (FindAll k' h' (root t') p) = Some ys \<and> a \<in> set ys)"
    using div_x_br_y_is_tree div_x_br_y_fuel
    by (intro exI[of _ div_x_br_y] exI[of _ div_x_br_y_tree] exI[of _ 40]
        exI[of _ "is_text div_x_br_y"] exI[of _ 5]) simp
  from F 2 3 4 show ?thesis by blast
qed

theorem FindAll_yields_matching_text_witness:
  "is_tree div_x_br_y div_x_br_y_tree \<and> fuel div_x_br_y_tree \<le> 40
   \<and> Type (div_x_br_y ! 5) = TextNode \<and> Type (div_x_br_y ! 7) = TextNode
   \<and> collect_seq (FindAll 40 div_x_br_y 0 (is_text div_x_br_y)) = Some [5, 7]"
proof -
  have "collect_seq (FindAll 40 div_x_br_y (root div_x_br_y_tree) (is_text div_x_br_y))
          = Some (filter (is_text div_x_br_y) (visit div_x_br_y div_x_br_y_tree))"
    using FindAll_yields_matching_text[OF div_x_br_y_is_tree div_x_br_y_fuel] by blast
  moreover have "Type (div_x_br_y ! 5) = TextNode" "Type (div_x_br_y ! 7) = TextNode"
    by (simp_all add: div_x_br_y_def new_node_def)
  ultimately show ?thesis
    using div_x_br_y_is_tree div_x_br_y_fuel
    by (simp only: div_x_br_y_root div_x_br_y_visit div_x_br_y_text_matches simp_thms)
qed

section \<open>WriteText and Text\<close>

text \<open>
  What \<open>WriteText\<close> does on every tree: it returns and hands the writer, in preorder and
  up to the writer's first error, the pieces \<open>written_pieces\<close>; \<open>Text\<close> returns their
  concatenation and no error. On a tree whose text nodes have no children these are the
  pieces of the specification, and the text of the tree parsed from
  \<^verbatim>\<open><div>x<br>y</div>\<close> is \<open>x\<close>, a newline, \<open>y\<close>, for any decoding that leaves \<open>x\<close> and
  \<open>y\<close> alone.
\<close>

lemma Text_written_pieces:
  assumes "is_tree h t" and "fuel t \<le> k"
  shows "(\<forall>Write w. WriteText k Write UnescapeString h w (root t)
           = Some (write_all Write w (written_pieces UnescapeString h t)))
     \<and> Text k UnescapeString h (root t) = Some (concat (written_pieces UnescapeString h t), None)
     \<and> (text_leaves h t \<longrightarrow> written_pieces UnescapeString h t = text_pieces UnescapeString h t)
     \<and> (UnescapeString ''x'' = ''x'' \<and> UnescapeString ''y'' = ''y'' \<longrightarrow>
           Text 40 UnescapeString div_x_br_y 0 = Some (''x'' @ [CHR 0x0A] @ ''y'', None))"
proof -
  have 1: "\<forall>Write w. WriteText k Write UnescapeString h w (root t)
           = Some (write_all Write w (written_pieces UnescapeString h t))"
    by (simp add: WriteText_written[OF assms])
  have 2: "Text k UnescapeString h (root t)
           = Some (concat (written_pieces UnescapeString h t), None)"
    by (simp add: Text_def WriteText_written[OF assms] write_all_Buffer)
  have 3: "text_leaves h t \<longrightarrow> written_pieces UnescapeString h t = text_pieces UnescapeString h t"
    by (simp add: written_pieces_text_leaves)
  have "Text 40 UnescapeString div_x_br_y (root div_x_br_y_tree)
          = Some (concat (text_pieces UnescapeString div_x_br_y div_x_br_y_tree), None)"
    by (simp add: Text_def write_all_Buffer
        WriteText_written[OF div_x_br_y_is_tree div_x_br_y_fuel]
        written_pieces_text_leaves(1)[OF div_x_br_y_text_leaves])
  then have 4: "UnescapeString ''x'' = ''x'' \<and> UnescapeString ''y'' = ''y'' \<longrightarrow>
           Text 40 UnescapeString div_x_br_y 0 = Some (''x'' @ [CHR 0x0A] @ ''y'', None)"
    by (simp add: div_x_br_y_root div_x_br_y_pieces)
  from 1 2 3 4 show ?thesis by (intro conjI)
qed

lemma Text_div_x_br_y:
  "Text 40 plain div_x_br_y 0 = Some (''x'' @ [CHR 0x0A] @ ''y'', None)"
proof -
  have "plain ''x'' = ''x'' \<and> plain ''y'' = ''y'' \<longrightarrow>
           Text 40 plain div_x_br_y 0 = Some (''x'' @ [CHR 0x0A] @ ''y'', None)"
    by (rule Text_written_pieces[OF div_x_br_y_is_tree div_x_br_y_fuel,
          THEN conjunct2, THEN conjunct2, THEN conjunct2])
  then show ?thesis by (simp add: plain_def)
qed

text \<open>
  C7 fails on the code: the claim's rule lets a text node contribute its decoded data
  and lets only the other nodes recurse into their children, on every tree. On a text
  node \<open>a\<close> whose child is a text node \<open>b\<close>, the rule gives the one piece \<open>a\<close>, while
  \<open>WriteText\<close>, which has no return in its case for text nodes, goes on to the children
  and \<open>Text\<close> returns \<open>a\<close> followed by \<open>b\<close>.
\<close>

theorem WriteText_descends_into_text:
  "is_tree text_in_text (Tree 0 [Tree 1 []])
   \<and> Type (text_in_text ! 0) = TextNode
   \<and> text_pieces UnescapeString text_in_text (Tree 0 [Tree 1 []]) = [UnescapeString ''a'']
   \<and> Text 6 UnescapeString text_in_text 0
        = Some (UnescapeString ''a'' @ UnescapeString ''b'', None)"
  by (simp add: Text_def eval_nat_numeral text_in_text_def new_node_def deref_def
      Buffer_Write_def)

section \<open>Prune\<close>

text \<open>
  C5: for every tree with root \<open>N\<close> and every predicate, \<open>Prune\<close> returns; it returns nil
  exactly when the predicate holds of \<open>N\<close> (and then the store is as before). Otherwise
  it returns a new node that is a pruned copy of the tree: a shallow copy of \<open>N\<close> (all
  fields of \<open>N\<close> but \<open>FirstChild\<close> and \<open>LastChild\<close>) whose children are the pruned copies
  of the children of \<open>N\<close> that do not match, in the original order, linked as siblings
  from scratch (the first one's \<open>PrevSibling\<close> is nil, the last one's \<open>NextSibling\<close> is nil,
  every other link goes to the neighbour in the filtered list), with \<open>FirstChild\<close> and
  \<open>LastChild\<close> of the copy the two ends of the filtered list, nil when no child is left.
  The copy is a tree of the new store.
\<close>

theorem Prune_pruned_copy:
  assumes "is_tree h t" and "fuel t \<le> k"
  shows "(pred (root t) \<longrightarrow> Prune k h (root t) pred = Some (h, None))
     \<and> (\<not> pred (root t) \<longrightarrow>
          (\<exists>h' t'. Prune k h (root t) pred = Some (h', Some (root t'))
             \<and> pruned_copy pred h h' t t' \<and> is_tree h' t'
             \<and> h' ! root t' = (h ! root t)\<lparr>
                  FirstChild := (if kids t' = [] then None else Some (root (hd (kids t')))),
                  LastChild := (if kids t' = [] then None else Some (root (last (kids t'))))\<rparr>))
     \<and> ((\<exists>h'. Prune k h (root t) pred = Some (h', None)) \<longleftrightarrow> pred (root t))"
proof (cases "pred (root t)")
  case True
  with Prune_copy[OF assms, of pred] show ?thesis by auto
next
  case False
  with Prune_copy[OF assms, of pred] obtain h' t'
    where p: "Prune k h (root t) pred = Some (h', Some (root t'))"
      and c: "copy_ok pred h h' t t'" by auto
  from c have pc: "pruned_copy pred h h' t t'"
    and "h' ! root t' = (h ! root t)\<lparr>
                  FirstChild := (if kids t' = [] then None else Some (root (hd (kids t')))),
                  LastChild := (if kids t' = [] then None else Some (root (last (kids t'))))\<rparr>"
    by (simp_all add: copy_ok_def)
  moreover from pc have "is_tree h' t'" by (rule pruned_copy_is_tree)
  ultimately have "\<exists>h' t'. Prune k h (root t) pred = Some (h', Some (root t'))
             \<and> pruned_copy pred h h' t t' \<and> is_tree h' t'
             \<and> h' ! root t' = (h ! root t)\<lparr>
                  FirstChild := (if kids t' = [] then None else Some (root (hd (kids t')))),
                  LastChild := (if kids t' = [] then None else Some (root (last (kids t'))))\<rparr>"
    using p by blast
  moreover have "\<not> (\<exists>h'. Prune k h (root t) pred = Some (h', None))" using p by simp
  ultimately show ?thesis using False by simp
qed

text \<open>
  On the example document: pruning with a predicate that the root matches returns nil;
  pruning the \<open>br\<close> element returns node 14, the copy of the document, and in the new
  store the copy of the \<open>div\<close> (node 11) has the copies of \<open>x\<close> and \<open>y\<close> (nodes 9 and 10) as
  its first and last child, linked to each other and to nothing else.
\<close>

theorem Prune_pruned_copy_witness:
  "is_tree div_x_br_y div_x_br_y_tree \<and> fuel div_x_br_y_tree \<le> 40
   \<and> Prune 40 div_x_br_y 0 (has_atom div_x_br_y (atom_Other 0)) = Some (div_x_br_y, None)
   \<and> (\<exists>h' t'. Prune 40 div_x_br_y 0 (has_atom div_x_br_y atom_Br) = Some (h', Some (root t'))
         \<and> pruned_copy (has_atom div_x_br_y atom_Br) div_x_br_y h' div_x_br_y_tree t')
   \<and> (case Prune 40 div_x_br_y 0 (has_atom div_x_br_y atom_Br) of
         None \<Rightarrow> False
       | Some (h', r) \<Rightarrow> r = Some 14 \<and> length h' = 15
           \<and> FirstChild (h' ! 11) = Some 9 \<and> LastChild (h' ! 11) = Some 10
           \<and> PrevSibling (h' ! 9) = None \<and> NextSibling (h' ! 9) = Some 10
           \<and> PrevSibling (h' ! 10) = Some 9 \<and> NextSibling (h' ! 10) = None
           \<and> Data (h' ! 9) = ''x'' \<and> Data (h' ! 10) = ''y'')"
proof -
  have a: "has_atom div_x_br_y (atom_Other 0) (root div_x_br_y_tree)"
    and b: "\<not> has_atom div_x_br_y atom_Br (root div_x_br_y_tree)"
    by (simp_all add: div_x_br_y_root has_atom_def div_x_br_y_def new_node_def)
  have "Prune 40 div_x_br_y (root div_x_br_y_tree) (has_atom div_x_br_y (atom_Other 0))
          = Some (div_x_br_y, None)"
    by (rule Prune_pruned_copy[OF div_x_br_y_is_tree div_x_br_y_fuel,
          of "has_atom div_x_br_y (atom_Other 0)", THEN conjunct1, rule_format, OF a])
  moreover have "\<exists>h' t'. Prune 40 div_x_br_y (root div_x_br_y_tree) (has_atom div_x_br_y atom_Br)
            = Some (h', Some (root t'))
         \<and> pruned_copy (has_atom div_x_br_y atom_Br) div_x_br_y h' div_x_br_y_tree t'"
    using Prune_pruned_copy[OF div_x_br_y_is_tree div_x_br_y_fuel,
          of "has_atom div_x_br_y atom_Br", THEN conjunct2, THEN conjunct1, rule_format, OF b]
    by blast
  moreover have "case Prune 40 div_x_br_y 0 (has_atom div_x_br_y atom_Br) of
         None \<Rightarrow> False
       | Some (h', r) \<Rightarrow> r = Some 14 \<and> length h' = 15
           \<and> FirstChild (h' ! 11) = Some 9 \<and> LastChild (h' ! 11) = Some 10
           \<and> PrevSibling (h' ! 9) = None \<and> NextSibling (h' ! 9) = Some 10
           \<and> PrevSibling (h' ! 10) = Some 9 \<and> NextSibling (h' ! 10) = None
           \<and> Data (h' ! 9) = ''x'' \<and> Data (h' ! 10) = ''y''"
    by code_simp
  ultimately show ?thesis
    using div_x_br_y_is_tree div_x_br_y_fuel by (simp only: div_x_br_y_root simp_thms)
qed

text \<open>
  C6: for every tree and every predicate, \<open>Prune\<close> returns, and in the store after the
  call every node of the store before the call is still there with every field as it
  was (so the tree is still there): \<open>Prune\<close> has written to new nodes only.
\<close>

theorem Prune_leaves_input_unchanged:
  assumes "is_tree h t" and "fuel t \<le> k"
  shows "\<exists>h' r. Prune k h (root t) pred = Some (h', r)
     \<and> length h \<le> length h' \<and> (\<forall>a < length h. h' ! a = h ! a) \<and> is_tree h' t"
proof (cases "pred (root t)")
  case True
  with Prune_copy[OF assms, of pred] assms(1) show ?thesis by simp
next
  case False
  with Prune_copy[OF assms, of pred] obtain h' t'
    where p: "Prune k h (root t) pred = Some (h', Some (root t'))" and e: "heap_extends h h'"
    by (auto simp: copy_ok_def)
  from assms(1) e have "is_tree h' t" by (rule is_tree_extends)
  with p e show ?thesis by (auto simp: heap_extends_def)
qed

theorem Prune_leaves_input_unchanged_witness:
  "is_tree div_x_br_y div_x_br_y_tree \<and> fuel div_x_br_y_tree \<le> 40
   \<and> (\<exists>h' r. Prune 40 div_x_br_y 0 (has_atom div_x_br_y atom_Br) = Some (h', r)
        \<and> 8 \<le> length h' \<and> take 8 h' = div_x_br_y \<and> is_tree h' div_x_br_y_tree)"
proof -
  have len: "length div_x_br_y = 8" by (simp add: div_x_br_y_def)
  obtain h' r where 1: "Prune 40 div_x_br_y (root div_x_br_y_tree) (has_atom div_x_br_y atom_Br)
           = Some (h', r)"
    and 2: "length div_x_br_y \<le> length h'" "\<forall>a < length div_x_br_y. h' ! a = div_x_br_y ! a"
    and 3: "is_tree h' div_x_br_y_tree"
    using Prune_leaves_input_unchanged[OF div_x_br_y_is_tree div_x_br_y_fuel] by blast
  from 2 have "take 8 h' = div_x_br_y"
    by (intro nth_equalityI) (simp_all add: len)
  with 1 2 3 have "Prune 40 div_x_br_y 0 (has_atom div_x_br_y atom_Br) = Some (h', r)
        \<and> 8 \<le> length h' \<and> take 8 h' = div_x_br_y \<and> is_tree h' div_x_br_y_tree"
    by (simp add: len div_x_br_y_root)
  then show ?thesis using div_x_br_y_is_tree div_x_br_y_fuel by blast
qed

section \<open>Indent and Indentln\<close>

text \<open>
  C8 fails on the code: on a document node without children, whatever the writer,
  rendering succeeds and writes nothing, the flag is still set as at the start, and
  \<open>Indentln\<close> returns without an error and without having written anything: the writer
  holds what it held before, so an output that was empty does not end with a newline.
\<close>

theorem Indentln_empty_document_no_newline:
  "indent 2 W Render EscapeString empty_document 0 0 \<lparr>bolw_w = NewWriter w, bol = True\<rparr>
     = Some (\<lparr>bolw_w = NewWriter w, bol = True\<rparr>, None)
   \<and> Indentln 2 W Render EscapeString empty_document w 0 0 = Some (w, None)
   \<and> Indentln 2 W Render EscapeString empty_document [] 0 0 = Some ([], None)"
  by (simp add: Indentln_def indentHelper_def numeral_2_eq_2 empty_document_def new_node_def
      deref_def Repeat_def maxInt_def skip_def deferred_Flush_def Flush_def NewWriter_def)

text \<open>
  The error of the deferred \<^verbatim>\<open>bw.Flush()\<close> is dropped: with a writer that refuses every
  write, \<open>Indent\<close> of the \<open>span\<close> example returns no error and the writer has received
  nothing; with a writer that accepts everything it has received the rendering.
\<close>

lemma Indent_refuse_all:
  "Indent 4 refuse_all render_data plain span_x [] 0 0 = Some ([], None)"
  by code_simp

lemma Indent_accept_all_span:
  "Indent 4 accept_all render_data plain span_x [] 0 0 = Some (''<span>x</span>'', None)
   \<and> Indentln 4 accept_all render_data plain span_x [] 0 0
        = Some (''<span>x</span>'' @ [CHR 0x0A], None)"
  by code_simp

section \<open>The classification sets\<close>

text \<open>
  C2, as the specification states it: the three sets are pairwise disjoint. This fails:
  \<open>atom.Hr\<close> is listed both in \<open>blockElements\<close> and in \<open>voidElements\<close>.
\<close>

theorem classification_sets_not_disjoint:
  "\<not> (blockElements \<inter> voidElements = {}
      \<and> blockElements \<inter> literalChildElements = {}
      \<and> voidElements \<inter> literalChildElements = {})"
proof -
  have "atom_Hr \<in> blockElements \<inter> voidElements"
    by (simp add: blockElements_def voidElements_def)
  then show ?thesis by blast
qed

text \<open>
  C2, amended: the literal-content set shares no tag with the block set nor with the
  void set; the block set and the void set share exactly the two tags \<open>hr\<close> and
  \<open>meta\<close>.
\<close>

theorem classification_sets_overlap:
  "blockElements \<inter> literalChildElements = {}
   \<and> voidElements \<inter> literalChildElements = {}
   \<and> blockElements \<inter> voidElements = {atom_Hr, atom_Meta}"
  by (auto simp add: blockElements_def voidElements_def literalChildElements_def)

end

